theory Spec2Isabelle
  imports Complex_Main "HOL-Library.Sublist" "HOL-Library.Log_Nat"
begin

section \<open>Text helpers of the JavaScript runtime\<close>

text \<open>
  Strings are lists of 8-bit characters. The whitespace class of \<open>trim\<close> and of the
  regular expression escape \<open>\\s\<close> is modelled by its ASCII members (tab, line feed,
  vertical tab, form feed, carriage return, space); \<open>\\d\<close> is an ASCII digit.
\<close>

definition nl :: string where
  "nl = [CHR 0x0A]"

definition arrow :: string where
  \<comment> \<open>the right arrow of the step prompt, as its UTF-8 bytes\<close>
  "arrow = [CHR 0xE2, CHR 0x86, CHR 0x92]"

definition isSpace :: "char \<Rightarrow> bool" where
  "isSpace c = (c \<in> set [CHR 0x09, CHR 0x0A, CHR 0x0B, CHR 0x0C, CHR 0x0D, CHR 0x20])"

definition isDigit :: "char \<Rightarrow> bool" where
  "isDigit c = (c \<in> set ''0123456789'')"

definition trim :: "string \<Rightarrow> string" where
  "trim s = rev (dropWhile isSpace (rev (dropWhile isSpace s)))"

text \<open>\<open>s.split('\\n')\<close>: the empty string splits into one empty line.\<close>

fun split_lines :: "string \<Rightarrow> string list" where
  "split_lines [] = [[]]"
| "split_lines (c # cs) =
     (if c = CHR 0x0A then [] # split_lines cs
      else (case split_lines cs of
              [] \<Rightarrow> [[c]]
            | l # ls \<Rightarrow> (c # l) # ls))"

text \<open>\<open>lines.join('\\n')\<close>\<close>

fun join_lines :: "string list \<Rightarrow> string" where
  "join_lines [] = []"
| "join_lines [l] = l"
| "join_lines (l # m # ls) = l @ nl @ join_lines (m # ls)"

text \<open>Decimal rendering of a non-negative integer inside a template literal.\<close>

definition digit_char :: "nat \<Rightarrow> char" where
  "digit_char d = ''0123456789'' ! (d mod 10)"

function show_nat :: "nat \<Rightarrow> string" where
  "show_nat n = (if n < 10 then [digit_char n] else show_nat (n div 10) @ [digit_char (n mod 10)])"
  by pat_completeness auto
termination
  by (relation "measure id") auto

declare show_nat.simps [simp del]

text \<open>\<open>xs.slice(-k)\<close>: the last \<open>k\<close> elements, all of them when there are fewer.\<close>

definition slice_last :: "nat \<Rightarrow> 'a list \<Rightarrow> 'a list" where
  "slice_last k xs = drop (length xs - k) xs"

text \<open>\<open>s.substring(0, k)\<close>\<close>

definition substring0 :: "nat \<Rightarrow> string \<Rightarrow> string" where
  "substring0 k s = take k s"

text \<open>The test \<open>/^\\d+\\./\<close> and the replacement of \<open>/^\\d+\\.\\s*/\<close> by the empty string.\<close>

definition numbered :: "string \<Rightarrow> bool" where
  "numbered l =
     (takeWhile isDigit l \<noteq> [] \<and>
      (case dropWhile isDigit l of [] \<Rightarrow> False | c # _ \<Rightarrow> c = CHR ''.''))"

definition strip_number :: "string \<Rightarrow> string" where
  "strip_number l =
     (if numbered l then dropWhile isSpace (tl (dropWhile isDigit l)) else l)"

text \<open>Truthiness of an optional string: \<open>undefined\<close> and the empty string are falsy.\<close>

definition truthy_str :: "string option \<Rightarrow> bool" where
  "truthy_str v = (case v of None \<Rightarrow> False | Some s \<Rightarrow> s \<noteq> [])"

text \<open>Truthiness of an optional flag: an option that was not passed is falsy.\<close>

definition truthy_flag :: "bool option \<Rightarrow> bool" where
  "truthy_flag v = (case v of None \<Rightarrow> False | Some b \<Rightarrow> b)"

text \<open>\<open>a || b\<close> on optional strings: the first operand when truthy, else the second.\<close>

definition or_str :: "string option \<Rightarrow> string option \<Rightarrow> string option" where
  "or_str a b = (if truthy_str a then a else b)"

definition or_default :: "string option \<Rightarrow> string \<Rightarrow> string" where
  "or_default v d = (case v of None \<Rightarrow> d | Some s \<Rightarrow> if s \<noteq> [] then s else d)"

section \<open>Data of the iteration loop\<close>

text \<open>The object the Oracle (\<open>queryOpenAI\<close>) answers with; an absent field is \<open>None\<close>.\<close>

record agent_response =
  choice :: string
  terminalCommand :: "string option"
  commandReasoning :: "string option"
  requiresApproval :: "bool option"
  code :: "string option"
  response :: "string option"

text \<open>The two arguments of \<open>executeAgentCommand\<close> and its result.\<close>

record agent_command =
  command :: "string option"
  ac_commandReasoning :: "string option"
  ac_requiresApproval :: "bool option"

record exec_opts =
  autoApprove :: "bool option"
  dryRun :: "bool option"
  timeout :: "nat option"
  allowDangerous :: "bool option"

record cmd_result =
  status :: string
  stdout :: string
  stderr :: string

record query_opts =
  q_temperature :: rat
  q_context :: "string option"

text \<open>
  Every call that leaves the loop is recorded, in order, next to the state of the outside
  world: the text and options given to the Oracle, the command and options given to the
  terminal executor.
\<close>

datatype event =
  OracleCall string query_opts
| ExecCall agent_command exec_opts

type_synonym 'w io = "'w \<times> event list"

text \<open>
  What \<open>executeStep\<close> returns. \<open>r_success\<close> is \<open>None\<close> when the property was never
  set (an Oracle answer of an unknown kind), which the loop reads as falsy.
\<close>

record step_outcome =
  r_response :: "agent_response option"
  r_executed :: bool
  r_executionResult :: "cmd_result option"
  r_success :: "bool option"
  r_code :: "string option"
  r_message :: "string option"
  r_error :: "string option"
  r_errorDetails :: "string option"

text \<open>
  The \<open>result\<close> of a completed step,
  \<open>result.executionResult || result.code || result.message\<close>: an execution result (an
  object, always truthy), a text, or \<open>undefined\<close>.
\<close>

datatype js_result = ResExec cmd_result | ResText string | ResUndefined

record completed_step =
  cs_step :: string
  cs_iteration :: nat
  cs_status :: string
  cs_result :: js_result

record failure =
  f_step :: string
  f_iteration :: nat
  f_error :: string
  f_details :: "string option"

record recovery_attempt =
  ra_step :: string
  ra_iteration :: nat
  ra_solution :: string

record execution_context =
  completedSteps :: "completed_step list"
  failures :: "failure list"
  recoveryAttempts :: "recovery_attempt list"
  reassessments :: nat
  globalContext :: "string option"

text \<open>
  The options the loop reads. The two limits are integers (the configuration documents them
  as positive integers; zero and negative values are kept, other numbers are not modelled).
  The \<open>onProgress\<close> callback and the console output have no effect on the loop and are
  left out.
\<close>

record options =
  maxIterations :: int
  maxConsecutiveFailures :: int
  temperature :: rat
  opt_globalContext :: "string option"
  verify :: bool
  verificationPrompt :: "string option"

definition default_options :: options where
  "default_options =
     \<lparr>maxIterations = 50, maxConsecutiveFailures = 3, temperature = 1 / 2,
      opt_globalContext = None, verify = False, verificationPrompt = None\<rparr>"

text \<open>
  The two collaborators are not part of the loop: the Oracle and the terminal executor are
  arbitrary functions of the state of the world. \<open>Inl msg\<close> is a rejected promise (a thrown
  error with message \<open>msg\<close>). The three uses of \<open>JSON.stringify\<close> are parameters as well.
\<close>

record 'w env =
  queryOpenAI :: "string \<Rightarrow> query_opts \<Rightarrow> 'w \<Rightarrow> (string + agent_response) \<times> 'w"
  executeAgentCommand :: "agent_command \<Rightarrow> exec_opts \<Rightarrow> 'w \<Rightarrow> (string + cmd_result) \<times> 'w"
  stringify_result :: "js_result \<Rightarrow> string"
  stringify_outcome :: "step_outcome \<Rightarrow> string"
  stringify_response :: "agent_response \<Rightarrow> string"

definition call_oracle ::
  "'w env \<Rightarrow> string \<Rightarrow> query_opts \<Rightarrow> 'w io \<Rightarrow> (string + agent_response) \<times> 'w io" where
  "call_oracle env q qo io =
     (case io of (w, tr) \<Rightarrow>
        (case queryOpenAI env q qo w of (r, w') \<Rightarrow> (r, (w', tr @ [OracleCall q qo]))))"

definition call_exec ::
  "'w env \<Rightarrow> agent_command \<Rightarrow> exec_opts \<Rightarrow> 'w io \<Rightarrow> (string + cmd_result) \<times> 'w io" where
  "call_exec env c eo io =
     (case io of (w, tr) \<Rightarrow>
        (case executeAgentCommand env c eo w of (r, w') \<Rightarrow> (r, (w', tr @ [ExecCall c eo]))))"

section \<open>executeStep\<close>

definition truthy_result :: "js_result \<Rightarrow> bool" where
  "truthy_result r = (case r of ResExec _ \<Rightarrow> True | ResText t \<Rightarrow> t \<noteq> [] | ResUndefined \<Rightarrow> False)"

definition completed_lines :: "'w env \<Rightarrow> nat \<times> completed_step \<Rightarrow> string list" where
  "completed_lines env p =
     (case p of (i, s) \<Rightarrow>
        (show_nat (i + 1) @ ''. '' @ cs_step s @ '' '' @ arrow @ '' '' @ cs_status s) #
        (if truthy_result (cs_result s)
         then [''   Result: '' @ substring0 200 (stringify_result env (cs_result s))]
         else []))"

definition failure_line :: "failure \<Rightarrow> string" where
  "failure_line f = ''- '' @ f_step f @ '': '' @ f_error f"

definition step_query :: "'w env \<Rightarrow> string \<Rightarrow> execution_context \<Rightarrow> string" where
  "step_query env step ctx =
     join_lines
       ((if completedSteps ctx \<noteq> []
         then ''Previously completed steps:'' #
              concat (map (completed_lines env) (enumerate 0 (completedSteps ctx)))
         else []) @
        (if failures ctx \<noteq> []
         then (nl @ ''Recent failures to be aware of:'') #
              map failure_line (slice_last 3 (failures ctx))
         else []) @
        [nl @ ''Current step to execute: '' @ step,
         nl @ ''Execute this step. If it requires a terminal command, use terminalCommand choice. If it requires code, use code choice.''])"

definition step_exec_opts :: exec_opts where
  "step_exec_opts =
     \<lparr>autoApprove = Some True, dryRun = Some False, timeout = Some 60000,
      allowDangerous = None\<rparr>"

definition caught :: "string \<Rightarrow> step_outcome" where
  \<comment> \<open>the object built in the \<open>catch\<close> block of \<open>executeStep\<close>\<close>
  "caught msg =
     \<lparr>r_response = None, r_executed = False, r_executionResult = None,
      r_success = Some False, r_code = None, r_message = None,
      r_error = Some msg, r_errorDetails = Some msg\<rparr>"

definition fresh_result :: "agent_response \<Rightarrow> step_outcome" where
  \<comment> \<open>\<open>{ response, executed: false }\<close>\<close>
  "fresh_result resp =
     \<lparr>r_response = Some resp, r_executed = False, r_executionResult = None,
      r_success = None, r_code = None, r_message = None,
      r_error = None, r_errorDetails = None\<rparr>"

definition executeStep ::
  "'w env \<Rightarrow> string \<Rightarrow> execution_context \<Rightarrow> rat \<Rightarrow> 'w io \<Rightarrow> step_outcome \<times> 'w io" where
  "executeStep env step ctx temp io =
     (case call_oracle env (step_query env step ctx)
             \<lparr>q_temperature = temp, q_context = globalContext ctx\<rparr> io of
        (Inl msg, io1) \<Rightarrow> (caught msg, io1)
      | (Inr resp, io1) \<Rightarrow>
          (if choice resp = ''terminalCommand'' then
             (case call_exec env
                     \<lparr>command = terminalCommand resp,
                      ac_commandReasoning = commandReasoning resp,
                      ac_requiresApproval = requiresApproval resp\<rparr>
                     step_exec_opts io1 of
                (Inl msg, io2) \<Rightarrow> (caught msg, io2)
              | (Inr er, io2) \<Rightarrow>
                  ((fresh_result resp)
                     \<lparr>r_executed := True, r_executionResult := Some er,
                      r_success := Some (status er = ''success'')\<rparr>, io2))
           else if choice resp = ''code'' then
             ((fresh_result resp)
                \<lparr>r_executed := True, r_success := Some True, r_code := code resp\<rparr>, io1)
           else if choice resp = ''response'' then
             ((fresh_result resp)
                \<lparr>r_executed := True, r_success := Some True, r_message := response resp\<rparr>, io1)
           else (fresh_result resp, io1)))"

section \<open>createRecoverySolution and reassessPlan\<close>

text \<open>
  \<open>createRecoverySolution\<close> returns \<open>{success: true, recoverySolution, recoveryAction}\<close>
  or, from its \<open>catch\<close> block, \<open>{success: false, error}\<close>.
\<close>

datatype recovery = RecoveryOk string agent_response | RecoveryFailed string

definition recovery_prompt :: "'w env \<Rightarrow> string \<Rightarrow> step_outcome \<Rightarrow> execution_context \<Rightarrow> string" where
  "recovery_prompt env step failureInfo ctx =
     join_lines
       [[],
        ''A step failed during execution. Analyze the failure and create a recovery solution.'',
        [],
        ''Failed Step: '' @ step,
        [],
        ''Failure Information:'',
        stringify_outcome env failureInfo,
        [],
        ''Previous Context:'',
        show_nat (length (completedSteps ctx)) @ '' steps completed successfully before this failure.'',
        [],
        ''Your task: Provide a solution to overcome this failure and continue. This could be:'',
        ''- An alternative approach to accomplish the same goal'',
        ''- A fix for the error encountered'',
        ''- A workaround for the issue'',
        ''- Additional steps needed before retrying'',
        [],
        ''Respond with a clear recovery plan.'',
        []]"

definition createRecoverySolution ::
  "'w env \<Rightarrow> string \<Rightarrow> step_outcome \<Rightarrow> execution_context \<Rightarrow> 'w io \<Rightarrow> recovery \<times> 'w io" where
  "createRecoverySolution env step failureInfo ctx io =
     (case call_oracle env (recovery_prompt env step failureInfo ctx)
             \<lparr>q_temperature = 7 / 10, q_context = globalContext ctx\<rparr> io of
        (Inl msg, io1) \<Rightarrow> (RecoveryFailed msg, io1)
      | (Inr resp, io1) \<Rightarrow>
          (RecoveryOk
             (or_default (or_str (response resp) (code resp)) ''Retry with modifications'')
             resp, io1))"

record reassessment =
  re_success :: bool
  re_revisedSteps :: "string list"
  re_reasoning :: "string option"
  re_error :: "string option"

definition numbered_steps :: "string list \<Rightarrow> string list" where
  \<comment> \<open>\<open>steps.map((s, i) => `${i + 1}. ${s}`)\<close>\<close>
  "numbered_steps steps = map (\<lambda>(i, s). show_nat (i + 1) @ ''. '' @ s) (enumerate 0 steps)"

definition reassess_prompt :: "string list \<Rightarrow> execution_context \<Rightarrow> string" where
  "reassess_prompt steps ctx =
     join_lines
       [[],
        ''The current execution plan has encountered multiple failures. Reassess and create an improved plan.'',
        [],
        ''Original Plan:'',
        join_lines (numbered_steps steps),
        [],
        ''Execution History:'',
        ''Completed: '' @ show_nat (length (completedSteps ctx)) @ '' steps'',
        ''Failed: '' @ show_nat (length (failures ctx)) @ '' times'',
        [],
        ''Recent Failures:'',
        join_lines (map failure_line (slice_last 5 (failures ctx))),
        [],
        ''Your task: '',
        ''1. Analyze what went wrong'',
        ''2. Create a revised plan that addresses the issues'',
        ''3. Consider alternative approaches'',
        ''4. Break down complex steps into simpler ones if needed'',
        [],
        ''Provide a revised list of steps to continue from the current point.'',
        []]"

definition parse_steps :: "string \<Rightarrow> string list" where
  \<comment> \<open>the lines that start with a number and a dot once trimmed, with the number removed\<close>
  "parse_steps text =
     map (\<lambda>line. trim (strip_number line))
         (filter (\<lambda>line. numbered (trim line)) (split_lines text))"

definition revised_of :: "agent_response \<Rightarrow> string list" where
  \<comment> \<open>the revised steps read from the answer; empty when the answer is not a text\<close>
  "revised_of resp =
     (if choice resp = ''response'' \<and> truthy_str (response resp)
      then parse_steps (or_default (response resp) [])
      else [])"

definition reassessPlan ::
  "'w env \<Rightarrow> string list \<Rightarrow> execution_context \<Rightarrow> 'w io \<Rightarrow> reassessment \<times> 'w io" where
  "reassessPlan env steps ctx io =
     (case call_oracle env (reassess_prompt steps ctx)
             \<lparr>q_temperature = 8 / 10, q_context = globalContext ctx\<rparr> io of
        (Inl msg, io1) \<Rightarrow>
          (\<lparr>re_success = False, re_revisedSteps = steps, re_reasoning = None,
            re_error = Some msg\<rparr>, io1)
      | (Inr resp, io1) \<Rightarrow>
          (let revisedSteps = revised_of resp
           in (\<lparr>re_success = True,
                re_revisedSteps = (if revisedSteps \<noteq> [] then revisedSteps else steps),
                re_reasoning = Some (or_default (response resp) ''Plan reassessed''),
                re_error = None\<rparr>, io1)))"

section \<open>The iteration loop\<close>

text \<open>
  The variables of \<open>executeStepsWithResilience\<close> that the loop changes. \<open>thrown\<close> holds the
  error of a rejected promise that no \<open>catch\<close> block of the loop handles; the counter
  \<open>iteration\<close> is threaded next to this record.
\<close>

record 'w loop_state =
  ctx :: execution_context
  currentSteps :: "string list"
  currentStepIndex :: nat
  consecutiveFailures :: nat
  io :: "'w io"
  thrown :: "string option"

definition result_of :: "step_outcome \<Rightarrow> js_result" where
  \<comment> \<open>\<open>result.executionResult || result.code || result.message\<close>\<close>
  "result_of r =
     (case r_executionResult r of
        Some er \<Rightarrow> ResExec er
      | None \<Rightarrow>
          (if truthy_str (r_code r) then ResText (or_default (r_code r) [])
           else (case r_message r of Some m \<Rightarrow> ResText m | None \<Rightarrow> ResUndefined)))"

definition recovery_exec_opts :: exec_opts where
  \<comment> \<open>\<open>{ autoApprove: true, timeout: 60000 }\<close>\<close>
  "recovery_exec_opts =
     \<lparr>autoApprove = Some True, dryRun = None, timeout = Some 60000, allowDangerous = None\<rparr>"

definition on_success :: "string \<Rightarrow> nat \<Rightarrow> step_outcome \<Rightarrow> 'w io \<Rightarrow> 'w loop_state \<Rightarrow> 'w loop_state" where
  "on_success step iteration result io1 s =
     s\<lparr>ctx := (ctx s)\<lparr>completedSteps := completedSteps (ctx s) @
                 [\<lparr>cs_step = step, cs_iteration = iteration, cs_status = ''success'',
                   cs_result = result_of result\<rparr>]\<rparr>,
       consecutiveFailures := 0,
       currentStepIndex := Suc (currentStepIndex s),
       io := io1\<rparr>"

definition record_failure :: "string \<Rightarrow> nat \<Rightarrow> step_outcome \<Rightarrow> execution_context \<Rightarrow> execution_context" where
  "record_failure step iteration result c =
     c\<lparr>failures := failures c @
         [\<lparr>f_step = step, f_iteration = iteration,
           f_error = or_default (r_error result) ''Unknown error'',
           f_details = r_errorDetails result\<rparr>]\<rparr>"

definition do_reassess :: "'w env \<Rightarrow> nat \<Rightarrow> execution_context \<Rightarrow> 'w io \<Rightarrow> 'w loop_state \<Rightarrow> 'w loop_state" where
  "do_reassess env cf c1 io1 s =
     (case reassessPlan env (drop (currentStepIndex s) (currentSteps s)) c1 io1 of
        (reassessment, io2) \<Rightarrow>
          (if re_success reassessment then
             s\<lparr>ctx := c1\<lparr>reassessments := Suc (reassessments c1)\<rparr>,
               currentSteps := take (currentStepIndex s) (currentSteps s) @
                               re_revisedSteps reassessment,
               consecutiveFailures := 0,
               io := io2\<rparr>
           else s\<lparr>ctx := c1, consecutiveFailures := cf, io := io2\<rparr>))"

definition do_recover ::
  "'w env \<Rightarrow> string \<Rightarrow> nat \<Rightarrow> step_outcome \<Rightarrow> nat \<Rightarrow> execution_context \<Rightarrow> 'w io \<Rightarrow> 'w loop_state \<Rightarrow> 'w loop_state" where
  "do_recover env step iteration result cf c1 io1 s =
     (case createRecoverySolution env step result c1 io1 of
        (RecoveryFailed msg, io2) \<Rightarrow> s\<lparr>ctx := c1, consecutiveFailures := cf, io := io2\<rparr>
      | (RecoveryOk solution action, io2) \<Rightarrow>
          (let c2 = c1\<lparr>recoveryAttempts := recoveryAttempts c1 @
                        [\<lparr>ra_step = step, ra_iteration = iteration, ra_solution = solution\<rparr>]\<rparr>
           in if choice action = ''terminalCommand'' then
                (case call_exec env
                        \<lparr>command = terminalCommand action,
                         ac_commandReasoning = Some ''Recovery attempt'',
                         ac_requiresApproval = Some False\<rparr>
                        recovery_exec_opts io2 of
                   (Inl msg, io3) \<Rightarrow>
                     s\<lparr>ctx := c2, consecutiveFailures := cf, io := io3, thrown := Some msg\<rparr>
                 | (Inr recoveryResult, io3) \<Rightarrow>
                     s\<lparr>ctx := c2,
                       consecutiveFailures := (if status recoveryResult = ''success'' then 0 else cf),
                       io := io3\<rparr>)
              else s\<lparr>ctx := c2, consecutiveFailures := cf, io := io2\<rparr>))"

definition on_failure ::
  "'w env \<Rightarrow> options \<Rightarrow> string \<Rightarrow> nat \<Rightarrow> step_outcome \<Rightarrow> 'w io \<Rightarrow> 'w loop_state \<Rightarrow> 'w loop_state" where
  "on_failure env opts step iteration result io1 s =
     (let cf = Suc (consecutiveFailures s);
          c1 = record_failure step iteration result (ctx s)
      in if int cf \<ge> maxConsecutiveFailures opts
         then do_reassess env cf c1 io1 s
         else do_recover env step iteration result cf c1 io1 s)"

text \<open>One pass through the body of the \<open>while\<close> loop; \<open>iteration\<close> is the incremented counter.\<close>

definition loop_body :: "'w env \<Rightarrow> options \<Rightarrow> nat \<Rightarrow> 'w loop_state \<Rightarrow> 'w loop_state" where
  "loop_body env opts iteration s =
     (let step = currentSteps s ! currentStepIndex s
      in case executeStep env step (ctx s) (temperature opts) (io s) of
           (result, io1) \<Rightarrow>
             (if r_success result = Some True
              then on_success step iteration result io1 s
              else on_failure env opts step iteration result io1 s))"

definition running :: "options \<Rightarrow> nat \<Rightarrow> 'w loop_state \<Rightarrow> bool" where
  "running opts iteration s =
     (thrown s = None \<and> currentStepIndex s < length (currentSteps s) \<and>
      int iteration < maxIterations opts)"

function exec_loop :: "'w env \<Rightarrow> options \<Rightarrow> nat \<Rightarrow> 'w loop_state \<Rightarrow> nat \<times> 'w loop_state" where
  "exec_loop env opts iteration s =
     (if running opts iteration s
      then exec_loop env opts (Suc iteration) (loop_body env opts (Suc iteration) s)
      else (iteration, s))"
  by pat_completeness auto
termination
  by (relation "measure (\<lambda>(env, opts, iteration, s). nat (maxIterations opts - int iteration))")
     (auto simp: running_def)

declare exec_loop.simps [simp del]

definition init_state :: "string list \<Rightarrow> options \<Rightarrow> 'w \<Rightarrow> 'w loop_state" where
  "init_state steps opts w =
     \<lparr>ctx = \<lparr>completedSteps = [], failures = [], recoveryAttempts = [], reassessments = 0,
             globalContext = opt_globalContext opts\<rparr>,
      currentSteps = steps, currentStepIndex = 0, consecutiveFailures = 0,
      io = (w, []), thrown = None\<rparr>"

section \<open>Verification and the summary\<close>

record verification =
  v_fulfilled :: bool
  v_issues :: "string list"
  v_analysis :: "string option"
  v_error :: "string option"

text \<open>
  The default verification prompt renders every completed step with
  \<open>JSON.stringify(s.result).substring(0, 200)\<close>. For a step whose result is \<open>undefined\<close>
  the rendering is \<open>undefined\<close> and \<open>substring\<close> raises a TypeError, outside the
  \<open>try\<close> block of \<open>verifyRequestFulfillment\<close>.
\<close>

definition completed_block :: "'w env \<Rightarrow> nat \<times> completed_step \<Rightarrow> string + string" where
  "completed_block env p =
     (case p of (i, s) \<Rightarrow>
        (case cs_result s of
           ResUndefined \<Rightarrow> Inl ''TypeError: Cannot read properties of undefined''
         | r \<Rightarrow>
             Inr (join_lines
                    [[],
                     ''Step '' @ show_nat (i + 1) @ '': '' @ cs_step s,
                     ''Status: '' @ cs_status s,
                     ''Result: '' @ substring0 200 (stringify_result env r),
                     []])))"

fun collect :: "(string + string) list \<Rightarrow> string + string list" where
  "collect [] = Inr []"
| "collect (Inl e # _) = Inl e"
| "collect (Inr b # bs) = (case collect bs of Inl e \<Rightarrow> Inl e | Inr cs \<Rightarrow> Inr (b # cs))"

definition default_verification_prompt ::
  "'w env \<Rightarrow> string list \<Rightarrow> execution_context \<Rightarrow> string + string" where
  "default_verification_prompt env originalSteps c =
     (case collect (map (completed_block env) (enumerate 0 (completedSteps c))) of
        Inl e \<Rightarrow> Inl e
      | Inr blocks \<Rightarrow>
          Inr (join_lines
                 [[],
                  ''Review the completed work and verify if the original request was fully fulfilled.'',
                  [],
                  ''ORIGINAL REQUEST (Steps to complete):'',
                  join_lines (numbered_steps originalSteps),
                  [],
                  ''COMPLETED WORK:'',
                  join_lines blocks,
                  [],
                  (if failures c \<noteq> []
                   then join_lines
                          [[], ''FAILURES ENCOUNTERED:'',
                           join_lines (map failure_line (failures c)), []]
                   else []),
                  [],
                  ''Your task:'',
                  ''1. Compare the original request with what was actually completed'',
                  ''2. Check if all requirements were met'',
                  ''3. Identify any discrepancies or missing elements'',
                  ''4. Verify the quality and correctness of the work'',
                  [],
                  ''Provide a detailed assessment of whether the request was fully fulfilled.'',
                  []]))"

definition lower_ascii :: "char \<Rightarrow> char" where
  "lower_ascii c =
     (let n = (of_char c :: nat) in if 65 \<le> n \<and> n \<le> 90 then char_of (n + 32) else c)"

definition mentions :: "string list \<Rightarrow> string \<Rightarrow> bool" where
  \<comment> \<open>a case-insensitive search for one of several words\<close>
  "mentions words text = list_ex (\<lambda>w. sublist w (map lower_ascii text)) words"

definition bullet_rest :: "string \<Rightarrow> string option" where
  \<comment> \<open>the text after a leading \<open>-\<close>, \<open>*\<close> or bullet sign (three bytes in UTF-8)\<close>
  "bullet_rest l =
     (case l of
        [] \<Rightarrow> None
      | c # r \<Rightarrow>
          (if c = CHR ''-'' \<or> c = CHR ''*'' then Some r
           else if take 3 l = [CHR 0xE2, CHR 0x80, CHR 0xA2] then Some (drop 3 l)
           else None))"

definition bulleted :: "string \<Rightarrow> bool" where
  "bulleted l = (case bullet_rest l of Some (c # _) \<Rightarrow> isSpace c | _ \<Rightarrow> False)"

definition strip_bullet :: "string \<Rightarrow> string" where
  "strip_bullet l =
     (if bulleted l then dropWhile isSpace (case bullet_rest l of Some r \<Rightarrow> r | None \<Rightarrow> l)
      else l)"

definition judge :: "string \<Rightarrow> bool \<times> string list" where
  "judge responseText =
     (let fulfilled =
            (\<not> mentions [''not fulfilled'', ''incomplete'', ''missing'', ''failed'', ''issue'',
                          ''problem''] responseText \<or>
             mentions [''fully fulfilled'', ''complete'', ''success'',
                       ''all requirements met''] responseText);
          issues =
            map (\<lambda>line. strip_bullet (trim line))
                (filter (\<lambda>line. bulleted (trim line) \<or>
                                 mentions [''issue'', ''problem'', ''missing'', ''incomplete''] line)
                        (split_lines responseText))
      in (fulfilled, take 10 issues))"

definition verifyRequestFulfillment ::
  "'w env \<Rightarrow> string list \<Rightarrow> execution_context \<Rightarrow> options \<Rightarrow> 'w io \<Rightarrow>
     (string + verification) \<times> 'w io" where
  "verifyRequestFulfillment env originalSteps c opts io0 =
     (case (if truthy_str (verificationPrompt opts)
            then Inr (or_default (verificationPrompt opts) [])
            else default_verification_prompt env originalSteps c) of
        Inl e \<Rightarrow> (Inl e, io0)
      | Inr prompt \<Rightarrow>
          (case call_oracle env prompt
                  \<lparr>q_temperature = temperature opts, q_context = globalContext c\<rparr> io0 of
             (Inl msg, io1) \<Rightarrow>
               (Inr \<lparr>v_fulfilled = False, v_issues = [''Verification error: '' @ msg],
                     v_analysis = None, v_error = Some msg\<rparr>, io1)
           | (Inr resp, io1) \<Rightarrow>
               (let responseText =
                      or_default (or_str (response resp) (code resp))
                        (stringify_response env resp)
                in case judge responseText of
                     (fulfilled, issues) \<Rightarrow>
                       (Inr \<lparr>v_fulfilled = fulfilled, v_issues = issues,
                             v_analysis = Some responseText, v_error = None\<rparr>, io1))))"

text \<open>
  A JavaScript number as far as the summary needs it: a finite double, given by its value,
  or \<open>NaN\<close> (for \<open>0 / 0\<close>) or \<open>Infinity\<close> (for \<open>n / 0\<close>).
\<close>

datatype js_number = Num rat | NaN | Infinity

text \<open>
  Arithmetic on doubles (IEEE 754 binary64, round to nearest, ties to even). A positive
  double is a significand of 53 bits and a power of two. \<open>round_ratio p q\<close> is the double
  nearest to \<open>p / q\<close> for positive \<open>p\<close> and \<open>q\<close>: with \<open>e\<close> the exponent of the
  quotient (\<open>2^e \<le> p / q < 2^(e + 1)\<close>), the quotient is scaled by \<open>2^(52 - e)\<close> and
  rounded to the nearest integer. Overflow and subnormal numbers do not arise for the
  lengths of arrays, which are below \<open>2^32\<close> and are doubles themselves.
\<close>

definition pow2 :: "int \<Rightarrow> rat" where
  "pow2 k = (if 0 \<le> k then 2 ^ nat k else 1 / 2 ^ nat (- k))"

definition ge_pow2 :: "nat \<Rightarrow> nat \<Rightarrow> int \<Rightarrow> bool" where
  \<comment> \<open>\<open>2^d \<le> p / q\<close>\<close>
  "ge_pow2 p q d = (if 0 \<le> d then q * 2 ^ nat d \<le> p else q \<le> p * 2 ^ nat (- d))"

definition exponent_of :: "nat \<Rightarrow> nat \<Rightarrow> int" where
  "exponent_of p q =
     (let d = int (floorlog 2 p) - int (floorlog 2 q)
      in if ge_pow2 p q d then d else d - 1)"

definition nearest_even :: "nat \<Rightarrow> nat \<Rightarrow> nat" where
  \<comment> \<open>the integer nearest to \<open>n / d\<close>, the even one of two that are equally near\<close>
  "nearest_even n d =
     (let k = n div d; r = n mod d
      in if 2 * r < d then k else if d < 2 * r then k + 1 else if even k then k else k + 1)"

definition round_ratio :: "nat \<Rightarrow> nat \<Rightarrow> nat \<times> int" where
  "round_ratio p q =
     (let e = exponent_of p q; s = 52 - e
      in ((if 0 \<le> s then nearest_even (p * 2 ^ nat s) q
           else nearest_even p (q * 2 ^ nat (- s))),
          e - 52))"

definition double_value :: "nat \<times> int \<Rightarrow> rat" where
  "double_value x = of_nat (fst x) * pow2 (snd x)"

definition times_100 :: "nat \<times> int \<Rightarrow> nat \<times> int" where
  \<comment> \<open>the double nearest to a hundred times a positive double\<close>
  "times_100 x =
     (if 0 \<le> snd x then round_ratio (fst x * 100 * 2 ^ nat (snd x)) 1
      else round_ratio (fst x * 100) (2 ^ nat (- snd x)))"

definition percentage :: "nat \<Rightarrow> nat \<Rightarrow> js_number" where
  \<comment> \<open>\<open>(a / b) * 100\<close>: the division is rounded, then the product\<close>
  "percentage a b =
     (if b = 0 then (if a = 0 then NaN else Infinity)
      else if a = 0 then Num 0
      else Num (double_value (times_100 (round_ratio a b))))"

record summary =
  sm_success :: bool
  sm_completed :: bool
  sm_reachedMaxIterations :: bool
  sm_totalSteps :: nat
  sm_completedSteps :: "completed_step list"
  sm_failureCount :: nat
  sm_failures :: "failure list"
  sm_recoveryAttempts :: "recovery_attempt list"
  sm_reassessments :: nat
  sm_iterations :: nat
  sm_successRate :: js_number
  sm_verification :: "verification option"

definition make_summary :: "options \<Rightarrow> nat \<Rightarrow> 'w loop_state \<Rightarrow> verification option \<Rightarrow> summary" where
  "make_summary opts iteration s v =
     (let allCompleted = (currentStepIndex s \<ge> length (currentSteps s))
      in \<lparr>sm_success = allCompleted,
          sm_completed = allCompleted,
          sm_reachedMaxIterations = (int iteration \<ge> maxIterations opts),
          sm_totalSteps = length (currentSteps s),
          sm_completedSteps = completedSteps (ctx s),
          sm_failureCount = length (failures (ctx s)),
          sm_failures = failures (ctx s),
          sm_recoveryAttempts = recoveryAttempts (ctx s),
          sm_reassessments = reassessments (ctx s),
          sm_iterations = iteration,
          sm_successRate = percentage (length (completedSteps (ctx s))) (length (currentSteps s)),
          sm_verification = v\<rparr>)"

text \<open>What follows the loop: the optional verification, then the summary.\<close>

definition finish ::
  "'w env \<Rightarrow> string list \<Rightarrow> options \<Rightarrow> nat \<times> 'w loop_state \<Rightarrow> (string + summary) \<times> 'w io" where
  "finish env steps opts p =
     (case p of (iteration, s) \<Rightarrow>
        (case thrown s of
           Some msg \<Rightarrow> (Inl msg, io s)
         | None \<Rightarrow>
             (if verify opts \<and> currentStepIndex s \<ge> length (currentSteps s) then
                (case verifyRequestFulfillment env steps (ctx s) opts (io s) of
                   (Inl msg, io1) \<Rightarrow> (Inl msg, io1)
                 | (Inr v, io1) \<Rightarrow> (Inr (make_summary opts iteration s (Some v)), io1))
              else (Inr (make_summary opts iteration s None), io s))))"

definition executeStepsWithResilience ::
  "'w env \<Rightarrow> string list \<Rightarrow> options \<Rightarrow> 'w \<Rightarrow> (string + summary) \<times> 'w io" where
  "executeStepsWithResilience env steps opts w =
     finish env steps opts (exec_loop env opts 0 (init_state steps opts w))"

section \<open>Properties of the calls that leave the loop\<close>

text \<open>
  The options of a terminal command issued by the loop: the ones that \<open>executeStep\<close>
  passes for the command of a step, \<open>{autoApprove: true, dryRun: false, timeout: 60000}\<close>,
  or the ones that the loop passes for the command of a recovery attempt,
  \<open>{autoApprove: true, timeout: 60000}\<close>, where no \<open>dryRun\<close> is passed at all.
\<close>

definition exec_settings_fixed :: "event \<Rightarrow> bool" where
  "exec_settings_fixed e =
     (case e of
        OracleCall q qo \<Rightarrow> True
      | ExecCall c eo \<Rightarrow>
          eo = \<lparr>autoApprove = Some True, dryRun = Some False, timeout = Some 60000,
                allowDangerous = None\<rparr> \<or>
          eo = \<lparr>autoApprove = Some True, dryRun = None, timeout = Some 60000,
                allowDangerous = None\<rparr>)"

text \<open>Every terminal command among the events was issued with the options \<open>eo\<close>.\<close>

definition issued_with :: "exec_opts \<Rightarrow> event \<Rightarrow> bool" where
  "issued_with eo e = (case e of OracleCall q qo \<Rightarrow> True | ExecCall c eo' \<Rightarrow> eo' = eo)"

text \<open>
  The settings as the specification words them, for a step and for a recovery attempt
  alike: \<open>autoApprove = true\<close>, \<open>dryRun = false\<close> and a timeout of 60000 ms.
\<close>

definition claimed_exec_settings :: "event \<Rightarrow> bool" where
  "claimed_exec_settings e =
     (case e of
        OracleCall q qo \<Rightarrow> True
      | ExecCall c eo \<Rightarrow>
          autoApprove eo = Some True \<and> dryRun eo = Some False \<and> timeout eo = Some 60000)"

section \<open>Runs of the loop\<close>

text \<open>The state after at most \<open>n\<close> further passes through the body.\<close>

fun run_n :: "'w env \<Rightarrow> options \<Rightarrow> nat \<Rightarrow> nat \<Rightarrow> 'w loop_state \<Rightarrow> nat \<times> 'w loop_state" where
  "run_n env opts 0 iteration s = (iteration, s)"
| "run_n env opts (Suc n) iteration s =
     (if running opts iteration s
      then run_n env opts n (Suc iteration) (loop_body env opts (Suc iteration) s)
      else (iteration, s))"

text \<open>
  What a later state \<open>s'\<close> of a run keeps of an earlier state \<open>s\<close>: the completed steps
  and the failures of \<open>s\<close> are still there, unchanged and in place; what was added to the
  completed steps has status \<open>success\<close>; the cursor has not moved back; the plan before
  the cursor of \<open>s\<close> is the same; and the plan is the same altogether unless a
  reassessment was counted in between.
\<close>

definition history_kept :: "'w loop_state \<Rightarrow> 'w loop_state \<Rightarrow> bool" where
  "history_kept s s' =
     (prefix (completedSteps (ctx s)) (completedSteps (ctx s')) \<and>
      list_all (\<lambda>c. cs_status c = ''success'')
        (drop (length (completedSteps (ctx s))) (completedSteps (ctx s'))) \<and>
      prefix (failures (ctx s)) (failures (ctx s')) \<and>
      currentStepIndex s \<le> currentStepIndex s' \<and>
      take (currentStepIndex s) (currentSteps s') = take (currentStepIndex s) (currentSteps s) \<and>
      reassessments (ctx s) \<le> reassessments (ctx s') \<and>
      (reassessments (ctx s') = reassessments (ctx s) \<longrightarrow> currentSteps s' = currentSteps s))"

text \<open>The cursor counts the completed steps and stays inside the plan.\<close>

definition cursor_ok :: "'w loop_state \<Rightarrow> bool" where
  "cursor_ok s =
     (length (completedSteps (ctx s)) = currentStepIndex s \<and>
      currentStepIndex s \<le> length (currentSteps s))"

section \<open>Scripted collaborators\<close>

text \<open>
  A deterministic stand-in for the two collaborators: the state of the world is the number
  of Oracle calls made so far, the Oracle's answer is a function of that number, and the
  executor gives the same result for every command.
\<close>

definition scripted :: "(nat \<Rightarrow> string + agent_response) \<Rightarrow> (string + cmd_result) \<Rightarrow> nat env" where
  "scripted answers outcome =
     \<lparr>queryOpenAI = (\<lambda>q qo w. (answers w, Suc w)),
      executeAgentCommand = (\<lambda>c eo w. (outcome, w)),
      stringify_result = (\<lambda>r. ''{}''),
      stringify_outcome = (\<lambda>r. ''{}''),
      stringify_response = (\<lambda>r. ''{}'')\<rparr>"

definition answer_command :: "string \<Rightarrow> agent_response" where
  "answer_command cmd =
     \<lparr>choice = ''terminalCommand'', terminalCommand = Some cmd, commandReasoning = None,
      requiresApproval = None, code = None, response = None\<rparr>"

definition answer_text :: "string \<Rightarrow> agent_response" where
  "answer_text t =
     \<lparr>choice = ''response'', terminalCommand = None, commandReasoning = None,
      requiresApproval = None, code = None, response = Some t\<rparr>"

definition answer_code :: "string option \<Rightarrow> agent_response" where
  "answer_code c =
     \<lparr>choice = ''code'', terminalCommand = None, commandReasoning = None,
      requiresApproval = None, code = c, response = None\<rparr>"

definition ran :: "string \<Rightarrow> string + cmd_result" where
  "ran st = Inr \<lparr>status = st, stdout = [], stderr = []\<rparr>"


text \<open>The Oracle is unreachable: every call is rejected.\<close>

definition env_down :: "nat env" where
  "env_down = scripted (\<lambda>w. Inl ''oracle unreachable'') (ran ''success'')"

text \<open>
  The first call (a step) is rejected, the second (the reassessment) answers with a
  two-step plan, and every later call answers with a text.
\<close>

definition env_replan :: "nat env" where
  "env_replan =
     scripted (\<lambda>w. if w = 0 then Inl ''boom''
                    else if w = 1 then Inr (answer_text (''1. x'' @ nl @ ''2. y''))
                    else Inr (answer_text ''done''))
              (ran ''success'')"

text \<open>
  The first step is answered with a text, the second step is rejected, the reassessment
  that follows answers with a two-step plan, and every later call answers with a text.
\<close>

definition env_revise :: "nat env" where
  "env_revise =
     scripted (\<lambda>w. if w = 1 then Inl ''boom''
                    else if w = 2 then Inr (answer_text (''1. x'' @ nl @ ''2. y''))
                    else Inr (answer_text ''done''))
              (ran ''success'')"

definition opts_strict :: options where
  \<comment> \<open>three iterations at most, reassessment at the first failure\<close>
  "opts_strict = default_options\<lparr>maxIterations := 3, maxConsecutiveFailures := 1\<rparr>"

text \<open>
  Every step call (the even calls) is rejected and every recovery call (the odd calls)
  proposes the command \<open>fix\<close>; the executor reports success, or is itself rejected.
\<close>

definition env_recover :: "nat env" where
  "env_recover =
     scripted (\<lambda>w. if even w then Inl ''boom'' else Inr (answer_command ''fix''))
              (ran ''success'')"

definition env_spawn_fails :: "nat env" where
  "env_spawn_fails =
     scripted (\<lambda>w. if even w then Inl ''boom'' else Inr (answer_command ''fix''))
              (Inl ''spawn failed'')"

text \<open>Every step is answered by generated code that is empty.\<close>

definition env_empty_code :: "nat env" where
  "env_empty_code = scripted (\<lambda>w. Inr (answer_code (Some []))) (ran ''success'')"

text \<open>
  Every call of the Oracle proposes the command \<open>make\<close>, for a step and for a recovery
  alike, and the command ends with status \<open>error\<close>.
\<close>

definition env_cmd_fails :: "nat env" where
  "env_cmd_fails = scripted (\<lambda>w. Inr (answer_command ''make'')) (ran ''error'')"

section \<open>PolicyGate\<close>

text \<open>
  Modelled from the spec: \<open>lib/terminalExecutor.js\<close>, which classifies and runs a command,
  is not among the sources. A rule of the table is a name and a test on the command text;
  the first rule that matches is reported. What makes a command need approval (it changes
  state, touches the network or escalates privilege) is a parameter.
\<close>

datatype classification = Blocked | RequiresApproval | AutoApproved

record policy_verdict =
  classification :: classification
  matchedRule :: "string option"
  reason :: string

record rule =
  rule_name :: string
  rule_matches :: "string \<Rightarrow> bool"

record policy_flags =
  pf_autoApprove :: bool
  pf_allowDangerous :: bool

text \<open>
  Modelled from the spec: \<open>classify\<close> of the missing \<open>lib/terminalExecutor.js\<close>. Any
  match in the rule table gives \<open>blocked\<close>, whatever the flags; otherwise a command that
  needs approval is \<open>requires-approval\<close> unless the caller set \<open>autoApprove\<close>, and every
  other command is \<open>auto-approved\<close>. The \<open>allowDangerous\<close> flag is accepted and, as the
  specification asks, never unblocks.
\<close>

definition classify ::
  "rule list \<Rightarrow> (string \<Rightarrow> bool) \<Rightarrow> policy_flags \<Rightarrow> string \<Rightarrow> policy_verdict" where
  "classify rules needs_approval flags cmd =
     (case find (\<lambda>r. rule_matches r cmd) rules of
        Some r \<Rightarrow>
          \<lparr>classification = Blocked, matchedRule = Some (rule_name r),
           reason = ''matches a destructive pattern''\<rparr>
      | None \<Rightarrow>
          (if needs_approval cmd \<and> \<not> pf_autoApprove flags
           then \<lparr>classification = RequiresApproval, matchedRule = None,
                 reason = ''changes state, touches the network or escalates privilege''\<rparr>
           else \<lparr>classification = AutoApproved, matchedRule = None,
                 reason = ''read-only or approved by the caller''\<rparr>))"

text \<open>
  Modelled from the spec: the rule table of the missing \<open>lib/terminalExecutor.js\<close>, one
  rule for each kind of destructive pattern that the specification names, with the patterns that the documentation of the repository lists:
  \<open>rm\\s+-rf\\s+\\/($|\\s)\<close>, \<open>:\\(\\)\\{.*:\\|:.*\\}\<close>, \<open>\\/dev\\/sda\<close>, \<open>mkfs\<close>,
  \<open>\\/etc\\/passwd\<close> and \<open>curl.*\\|.*bash\<close>.
\<close>

fun starts_with :: "string \<Rightarrow> string \<Rightarrow> bool" where
  "starts_with [] s = True"
| "starts_with (p # ps) [] = False"
| "starts_with (p # ps) (c # cs) = (p = c \<and> starts_with ps cs)"

text \<open>A pattern that may match at any position of the text.\<close>

fun anywhere :: "(string \<Rightarrow> bool) \<Rightarrow> string \<Rightarrow> bool" where
  "anywhere P [] = P []"
| "anywhere P (c # cs) = (P (c # cs) \<or> anywhere P cs)"

text \<open>\<open>.*\<close> followed by a pattern: any characters but line terminators, then the pattern.\<close>

fun later :: "(string \<Rightarrow> bool) \<Rightarrow> string \<Rightarrow> bool" where
  "later P [] = P []"
| "later P (c # cs) = (P (c # cs) \<or> (c \<noteq> CHR 0x0A \<and> c \<noteq> CHR 0x0D \<and> later P cs))"

text \<open>\<open>\\s+\<close> followed by a pattern that starts with a character that is no space.\<close>

definition spaces_then :: "(string \<Rightarrow> bool) \<Rightarrow> string \<Rightarrow> bool" where
  "spaces_then P s = (case s of [] \<Rightarrow> False | c # cs \<Rightarrow> isSpace c \<and> P (dropWhile isSpace cs))"

definition root_deletion :: "string \<Rightarrow> bool" where
  "root_deletion =
     anywhere (\<lambda>s. starts_with ''rm'' s \<and>
       spaces_then (\<lambda>r. starts_with ''-rf'' r \<and>
         spaces_then (\<lambda>q. starts_with ''/'' q \<and>
                          (case drop 1 q of [] \<Rightarrow> True | c # _ \<Rightarrow> isSpace c))
           (drop 3 r))
         (drop 2 s))"

definition fork_bomb :: "string \<Rightarrow> bool" where
  "fork_bomb =
     anywhere (\<lambda>s. starts_with '':(){'' s \<and>
       later (\<lambda>r. starts_with '':|:'' r \<and> later (starts_with ''}'') (drop 3 r)) (drop 4 s))"

definition pipe_to_interpreter :: "string \<Rightarrow> bool" where
  "pipe_to_interpreter =
     anywhere (\<lambda>s. starts_with ''curl'' s \<and>
       later (\<lambda>r. starts_with ''|'' r \<and> later (starts_with ''bash'') (drop 1 r)) (drop 4 s))"

definition destructive_rules :: "rule list" where
  "destructive_rules =
     [\<lparr>rule_name = ''recursive root deletion'', rule_matches = root_deletion\<rparr>,
      \<lparr>rule_name = ''fork bomb'', rule_matches = fork_bomb\<rparr>,
      \<lparr>rule_name = ''raw block-device write'', rule_matches = anywhere (starts_with ''/dev/sda'')\<rparr>,
      \<lparr>rule_name = ''filesystem formatting'', rule_matches = anywhere (starts_with ''mkfs'')\<rparr>,
      \<lparr>rule_name = ''core system file tampering'',
        rule_matches = anywhere (starts_with ''/etc/passwd'')\<rparr>,
      \<lparr>rule_name = ''remote script piped to an interpreter'',
        rule_matches = pipe_to_interpreter\<rparr>]"

section \<open>SecretVault\<close>

text \<open>
  Modelled from the spec: \<open>lib/secretRedactor.js\<close>, the class behind \<open>redactor.redact\<close>
  and \<open>redactor.substitute\<close>, is not among the sources; only its two calls in
  \<open>processUserRequest\<close> are, each from a string to a string, on a redactor that is
  created for the request. The model follows the specification: \<open>redact\<close> takes the
  text and returns the safe text with the mapping, \<open>substitute\<close> takes a text and a
  mapping and returns the restored text with the count of the tokens it could not
  resolve. Texts are strings throughout; a placeholder is found in a text by reading it.
\<close>

text \<open>
  Modelled from the spec: the types of secrets, one for each credential context that
  the specification names (\<open>password:\<close>, \<open>token:\<close>, \<open>key:\<close>) and one for the generic
  long hexadecimal detector.
\<close>

datatype secret_kind = Password | ApiToken | ApiKey | LongHex

fun kind_name :: "secret_kind \<Rightarrow> string" where
  "kind_name Password = ''PASSWORD''"
| "kind_name ApiToken = ''TOKEN''"
| "kind_name ApiKey = ''KEY''"
| "kind_name LongHex = ''HEX''"

text \<open>
  Modelled from the spec: the mapping, pairs of a placeholder token and the original
  secret value, in the order in which the tokens were made.
\<close>

type_synonym secret_mapping = "(string \<times> string) list"

text \<open>Modelled from the spec: a placeholder is written \<open>{{TYPE_N}}\<close>.\<close>

definition placeholder :: "secret_kind \<Rightarrow> nat \<Rightarrow> string" where
  "placeholder kd n = ''{{'' @ kind_name kd @ ''_'' @ show_nat n @ ''}}''"

definition isTypeChar :: "char \<Rightarrow> bool" where
  "isTypeChar c = (c \<in> set ''ABCDEFGHIJKLMNOPQRSTUVWXYZ_'')"

text \<open>
  Modelled from the spec: reading a placeholder at the start of a text. Whatever is
  written as \<open>{{\<close>, capital letters and underscores ending in an underscore, digits,
  \<open>}}\<close> has the form of a placeholder, whether \<open>redact\<close> produced it or not; the
  result is its length.
\<close>

definition parse_placeholder :: "string \<Rightarrow> nat option" where
  "parse_placeholder s =
     (if starts_with ''{{'' s then
        let name = takeWhile isTypeChar (drop 2 s);
            digits = takeWhile isDigit (drop (2 + length name) s)
        in if 2 \<le> length name \<and> last name = CHR ''_'' \<and> digits \<noteq> [] \<and>
              starts_with ''}}'' (drop (2 + length name + length digits) s)
           then Some (length name + length digits + 4)
           else None
      else None)"

text \<open>
  Modelled from the spec: the literal strings of a text that look like a placeholder,
  one for each position at which one can be read.
\<close>

fun literal_tokens :: "string \<Rightarrow> string list" where
  "literal_tokens [] = []"
| "literal_tokens (c # s) =
     (case parse_placeholder (c # s) of
        Some w \<Rightarrow> take w (c # s) # literal_tokens s
      | None \<Rightarrow> literal_tokens s)"

text \<open>
  Modelled from the spec: the token of a match. The same secret value gets the same
  token, reused on every repeat. A new value gets a new token of the type of its
  detector, with the first number from 1 on whose placeholder is neither a token of the
  mapping, so that distinct values never share a token, nor written literally in the
  text that is redacted, so that a literal that looks like a placeholder is not resolved
  by \<open>substitute\<close>. The numbers tried are one more than there are tokens and literals;
  one of them is always free (\<open>fresh_number_fresh\<close> below).
\<close>

definition fresh_number :: "string \<Rightarrow> secret_mapping \<Rightarrow> secret_kind \<Rightarrow> nat" where
  "fresh_number T m kd =
     (let taken = literal_tokens T @ map fst m
      in case find (\<lambda>n. placeholder kd n \<notin> set taken) [1 ..< length taken + 2] of
           Some n \<Rightarrow> n
         | None \<Rightarrow> length taken + 2)"

definition token_for ::
  "string \<Rightarrow> secret_mapping \<Rightarrow> secret_kind \<Rightarrow> string \<Rightarrow> string \<times> secret_mapping" where
  "token_for T m kd v =
     (case find (\<lambda>e. snd e = v) m of
        Some e \<Rightarrow> (fst e, m)
      | None \<Rightarrow> (placeholder kd (fresh_number T m kd),
                 m @ [(placeholder kd (fresh_number T m kd), v)]))"

text \<open>
  Modelled from the spec: a detector and the ordered list of detectors. The regular
  expressions of \<open>lib/secretRedactor.js\<close> are not among the sources, so a detector is
  any function that looks at the text from a position on and answers with the number of
  characters to keep (the label of a credential context) and the number of characters
  of the secret behind them. At a position the first detector of the list with a match
  wins; a match without characters, or one that runs past the end of the text, is none.
\<close>

type_synonym detector = "secret_kind \<times> (string \<Rightarrow> (nat \<times> nat) option)"

fun first_match :: "detector list \<Rightarrow> string \<Rightarrow> (secret_kind \<times> nat \<times> nat) option" where
  "first_match [] s = None"
| "first_match (d # ds) s =
     (case snd d s of
        Some (k, n) \<Rightarrow>
          if 0 < n \<and> k + n \<le> length s then Some (fst d, k, n) else first_match ds s
      | None \<Rightarrow> first_match ds s)"

text \<open>
  Modelled from the spec: \<open>redact(text)\<close>, from left to right. Text that is no secret
  is copied; a match is replaced with its token and the scan goes on behind the match,
  so that the matches do not overlap. \<open>T\<close> is the whole text, \<open>m\<close> the mapping so
  far.
\<close>

fun redact_from ::
  "detector list \<Rightarrow> string \<Rightarrow> secret_mapping \<Rightarrow> string \<Rightarrow> string \<times> secret_mapping" where
  "redact_from ds T m [] = ([], m)"
| "redact_from ds T m (c # s) =
     (case first_match ds (c # s) of
        None \<Rightarrow> (case redact_from ds T m s of (r, m2) \<Rightarrow> (c # r, m2))
      | Some (kd, k, n) \<Rightarrow>
          (case token_for T m kd (take n (drop k (c # s))) of
             (tok, m1) \<Rightarrow>
               (case redact_from ds T m1 (drop (k + n - 1) s) of
                  (r, m2) \<Rightarrow> (take k (c # s) @ tok @ r, m2))))"

definition redact_with :: "detector list \<Rightarrow> string \<Rightarrow> string \<times> secret_mapping" where
  "redact_with ds T = redact_from ds T [] T"

text \<open>
  Modelled from the spec: the detectors, the credential contexts before the generic
  one. A credential context is its label, white space, and the secret up to the next
  white space; the generic detector takes 32 or more hexadecimal digits.
\<close>

definition after_label :: "string \<Rightarrow> string \<Rightarrow> (nat \<times> nat) option" where
  "after_label l s =
     (if starts_with l s then
        let gap = length (takeWhile isSpace (drop (length l) s))
        in Some (length l + gap,
                 length (takeWhile (\<lambda>c. \<not> isSpace c) (drop (length l + gap) s)))
      else None)"

definition isHex :: "char \<Rightarrow> bool" where
  "isHex c = (c \<in> set ''0123456789abcdefABCDEF'')"

definition long_hex :: "string \<Rightarrow> (nat \<times> nat) option" where
  "long_hex s =
     (if 32 \<le> length (takeWhile isHex s) then Some (0, length (takeWhile isHex s)) else None)"

definition detectors :: "detector list" where
  "detectors =
     [(Password, after_label ''password:''), (ApiToken, after_label ''token:''),
      (ApiKey, after_label ''key:''), (LongHex, long_hex)]"

text \<open>
  Modelled from the spec: \<open>redact(text)\<close> of the missing \<open>lib/secretRedactor.js\<close>. It
  starts from an empty mapping and returns the safe text with the mapping.
\<close>

definition redact :: "string \<Rightarrow> string \<times> secret_mapping" where
  "redact T = redact_with detectors T"

text \<open>
  Modelled from the spec: \<open>substitute(text, mapping)\<close> of the missing
  \<open>lib/secretRedactor.js\<close>, from left to right. A placeholder that is a token of the
  mapping is replaced with its value, and the scan goes on behind it; a placeholder
  that is no token of the mapping is left as it is written and counted; every other
  character is copied.
\<close>

fun substitute :: "string \<Rightarrow> secret_mapping \<Rightarrow> string \<times> nat" where
  "substitute [] m = ([], 0)"
| "substitute (c # s) m =
     (case parse_placeholder (c # s) of
        None \<Rightarrow> (case substitute s m of (r, n) \<Rightarrow> (c # r, n))
      | Some w \<Rightarrow>
          (case map_of m (take w (c # s)) of
             None \<Rightarrow> (case substitute s m of (r, n) \<Rightarrow> (c # r, Suc n))
           | Some v \<Rightarrow> (case substitute (drop (w - 1) s) m of (r, n) \<Rightarrow> (v @ r, n))))"

text \<open>
  The mappings that \<open>redact\<close> builds: no token twice, every token a placeholder, and no
  token written literally in the text that was redacted.
\<close>

definition keys_clean :: "string \<Rightarrow> secret_mapping \<Rightarrow> bool" where
  "keys_clean T m =
     (\<forall>p\<in>fst ` set m. (\<exists>kd n. p = placeholder kd n) \<and> p \<notin> set (literal_tokens T))"

definition vault_inv :: "string \<Rightarrow> secret_mapping \<Rightarrow> bool" where
  "vault_inv T m = (distinct (map fst m) \<and> keys_clean T m)"

text \<open>
  A step that carries a password, the placeholder command that the Oracle answers with,
  and collaborators with that answer for every call.
\<close>

definition secret_step :: string where
  "secret_step = ''Connect with password: SuperSecret123!''"

definition placeholder_command :: string where
  "placeholder_command = ''echo {{PASSWORD_1}}''"

definition env_leak :: "nat env" where
  "env_leak = scripted (\<lambda>w. Inr (answer_command placeholder_command)) (ran ''success'')"

section \<open>Unfolding the loop\<close>

lemma exec_loop_step:
  "running opts it s \<Longrightarrow>
   exec_loop env opts it s = exec_loop env opts (Suc it) (loop_body env opts (Suc it) s)"
  by (subst exec_loop.simps) simp

lemma exec_loop_stop: "\<not> running opts it s \<Longrightarrow> exec_loop env opts it s = (it, s)"
  by (subst exec_loop.simps) simp

section \<open>The options of every terminal command\<close>

lemma call_oracle_trace: "snd (snd (call_oracle env q qo io0)) = snd io0 @ [OracleCall q qo]"
  by (simp add: call_oracle_def split: prod.splits)

lemma call_exec_trace: "snd (snd (call_exec env c eo io0)) = snd io0 @ [ExecCall c eo]"
  by (simp add: call_exec_def split: prod.splits)

lemma fixed_oracle: "exec_settings_fixed (OracleCall q qo)"
  by (simp add: exec_settings_fixed_def)

lemma fixed_step: "exec_settings_fixed (ExecCall c step_exec_opts)"
  by (simp add: exec_settings_fixed_def step_exec_opts_def)

lemma fixed_recovery: "exec_settings_fixed (ExecCall c recovery_exec_opts)"
  by (simp add: exec_settings_fixed_def recovery_exec_opts_def)

lemma call_oracle_fixed:
  assumes "call_oracle env q qo io0 = (r, io1)" "list_all exec_settings_fixed (snd io0)"
  shows "list_all exec_settings_fixed (snd io1)"
  using assms call_oracle_trace [of env q qo io0] by (simp add: fixed_oracle)

lemma call_exec_fixed:
  assumes "call_exec env c eo io0 = (r, io1)" "list_all exec_settings_fixed (snd io0)"
    "eo = step_exec_opts \<or> eo = recovery_exec_opts"
  shows "list_all exec_settings_fixed (snd io1)"
  using assms call_exec_trace [of env c eo io0] by (auto simp add: fixed_step fixed_recovery)

lemma executeStep_fixed:
  assumes "executeStep env step c t io0 = (r, io1)" "list_all exec_settings_fixed (snd io0)"
  shows "list_all exec_settings_fixed (snd io1)"
  using assms
  by (auto simp: executeStep_def split: prod.splits sum.splits if_splits
           dest: call_oracle_fixed call_exec_fixed)

lemma createRecoverySolution_fixed:
  assumes "createRecoverySolution env step r c io0 = (rcv, io1)"
    "list_all exec_settings_fixed (snd io0)"
  shows "list_all exec_settings_fixed (snd io1)"
  using assms
  by (auto simp: createRecoverySolution_def split: prod.splits sum.splits
           dest: call_oracle_fixed)

lemma reassessPlan_fixed:
  assumes "reassessPlan env steps c io0 = (ra, io1)" "list_all exec_settings_fixed (snd io0)"
  shows "list_all exec_settings_fixed (snd io1)"
  using assms
  by (auto simp: reassessPlan_def Let_def split: prod.splits sum.splits
           dest: call_oracle_fixed)

lemma do_reassess_fixed:
  assumes "list_all exec_settings_fixed (snd io1)"
  shows "list_all exec_settings_fixed (snd (io (do_reassess env cf c1 io1 s)))"
  using assms
  by (auto simp: do_reassess_def split: prod.splits dest: reassessPlan_fixed)

lemma do_recover_fixed:
  assumes "list_all exec_settings_fixed (snd io1)"
  shows "list_all exec_settings_fixed (snd (io (do_recover env step it r cf c1 io1 s)))"
  using assms
  by (auto simp: do_recover_def Let_def split: prod.splits sum.splits recovery.splits
           dest!: createRecoverySolution_fixed dest: call_exec_fixed)

lemma loop_body_fixed:
  assumes "list_all exec_settings_fixed (snd (io s))"
  shows "list_all exec_settings_fixed (snd (io (loop_body env opts it s)))"
  using assms
  by (auto simp: loop_body_def on_success_def on_failure_def Let_def
                 do_reassess_fixed do_recover_fixed
           split: prod.splits dest: executeStep_fixed)

lemma exec_loop_fixed:
  "list_all exec_settings_fixed (snd (io s)) \<Longrightarrow>
   list_all exec_settings_fixed (snd (io (snd (exec_loop env opts it s))))"
proof (induction env opts it s rule: exec_loop.induct)
  case (1 env opts iteration s)
  show ?case
  proof (cases "running opts iteration s")
    case True
    with 1 show ?thesis by (simp add: exec_loop_step loop_body_fixed)
  next
    case False
    with 1 show ?thesis by (simp add: exec_loop_stop)
  qed
qed

lemma verify_fixed:
  assumes "verifyRequestFulfillment env steps c opts io0 = (r, io1)"
    "list_all exec_settings_fixed (snd io0)"
  shows "list_all exec_settings_fixed (snd io1)"
  using assms
  by (auto simp: verifyRequestFulfillment_def Let_def
           split: prod.splits sum.splits if_splits dest: call_oracle_fixed)

lemma executeStep_new_events:
  "list_all (issued_with step_exec_opts)
     (drop (length (snd io0)) (snd (snd (executeStep env step c t io0))))"
  by (cases io0)
     (auto simp: executeStep_def call_oracle_def call_exec_def issued_with_def
           split: prod.splits sum.splits)

lemma do_recover_new_events:
  "list_all (issued_with recovery_exec_opts)
     (drop (length (snd io1)) (snd (io (do_recover env step it r cf c1 io1 s))))"
  by (cases io1)
     (auto simp: do_recover_def createRecoverySolution_def call_oracle_def call_exec_def
                 issued_with_def Let_def
           split: prod.splits sum.splits recovery.splits)

text \<open>
  Claim C9, as the loop implements it. Whatever options \<open>executeStepsWithResilience\<close> is
  given, whatever the plan and whatever the Oracle and the executor do, every terminal
  command of the run is issued with one of two fixed sets of options, which no field of
  the loop's options reaches: the command of a step with \<open>autoApprove: true\<close>,
  \<open>dryRun: false\<close> and \<open>timeout: 60000\<close>; the command of a recovery attempt with
  \<open>autoApprove: true\<close> and \<open>timeout: 60000\<close> and without any \<open>dryRun\<close>, so that
  whether a recovery command is a dry run is left to what the executor does when the
  flag is not passed.
\<close>

theorem exec_options_fixed:
  "list_all exec_settings_fixed (snd (snd (executeStepsWithResilience env steps opts w))) \<and>
   list_all (issued_with \<lparr>autoApprove = Some True, dryRun = Some False,
                          timeout = Some 60000, allowDangerous = None\<rparr>)
     (drop (length (snd io0)) (snd (snd (executeStep env step c t io0)))) \<and>
   list_all (issued_with \<lparr>autoApprove = Some True, dryRun = None,
                          timeout = Some 60000, allowDangerous = None\<rparr>)
     (drop (length (snd io1)) (snd (io (do_recover env step it r cf c1 io1 s))))"
proof -
  obtain it' s' where r: "exec_loop env opts 0 (init_state steps opts w) = (it', s')"
    by (cases "exec_loop env opts 0 (init_state steps opts w)")
  have "list_all exec_settings_fixed (snd (io (init_state steps opts w)))"
    by (simp add: init_state_def)
  from exec_loop_fixed [OF this, of env opts 0] r
  have s: "list_all exec_settings_fixed (snd (io s'))" by simp
  have a: "list_all exec_settings_fixed
             (snd (snd (executeStepsWithResilience env steps opts w)))"
    using s r
    by (auto simp: executeStepsWithResilience_def finish_def
             split: option.splits prod.splits sum.splits dest: verify_fixed)
  from a executeStep_new_events [of io0 env step c t]
       do_recover_new_events [of io1 env step it r cf c1 s]
  show ?thesis by (simp add: step_exec_opts_def recovery_exec_opts_def)
qed

section \<open>Evaluating concrete runs\<close>

lemma scripted_simps:
  "queryOpenAI (scripted a r) q qo w = (a w, Suc w)"
  "executeAgentCommand (scripted a r) c eo w = (r, w)"
  by (simp_all add: scripted_def)

lemmas run_eval =
  executeStepsWithResilience_def init_state_def default_options_def exec_loop_step exec_loop_stop
  running_def loop_body_def executeStep_def call_oracle_def call_exec_def scripted_simps
  on_success_def on_failure_def do_reassess_def do_recover_def record_failure_def
  reassessPlan_def createRecoverySolution_def revised_of_def
  fresh_result_def caught_def finish_def make_summary_def Let_def
  answer_command_def answer_text_def answer_code_def ran_def result_of_def
  truthy_str_def or_default_def or_str_def

lemmas text_eval =
  parse_steps_def trim_def numbered_def strip_number_def isSpace_def isDigit_def nl_def

theorem exec_options_fixed_witness:
  "list_all exec_settings_fixed
     (snd (snd (executeStepsWithResilience env_cmd_fails [''build'']
                  (default_options\<lparr>maxIterations := 1\<rparr>) 0))) \<and>
   map (\<lambda>e. case e of OracleCall q qo \<Rightarrow> None | ExecCall c eo \<Rightarrow> Some (command c, eo))
     (snd (snd (executeStepsWithResilience env_cmd_fails [''build'']
                  (default_options\<lparr>maxIterations := 1\<rparr>) 0)))
     = [None, Some (Some ''make'', step_exec_opts), None, Some (Some ''make'', recovery_exec_opts)]"
proof -
  have "map (\<lambda>e. case e of OracleCall q qo \<Rightarrow> None | ExecCall c eo \<Rightarrow> Some (command c, eo))
     (snd (snd (executeStepsWithResilience env_cmd_fails [''build'']
                  (default_options\<lparr>maxIterations := 1\<rparr>) 0)))
     = [None, Some (Some ''make'', step_exec_opts), None, Some (Some ''make'', recovery_exec_opts)]"
    by (simp add: run_eval env_cmd_fails_def)
  with exec_options_fixed
         [of env_cmd_fails "[''build'']" "default_options\<lparr>maxIterations := 1\<rparr>" 0]
  show ?thesis by blast
qed

text \<open>
  Claim C9 as the specification words it fails on the command of a recovery attempt: in
  the run below the step command ends with status \<open>error\<close>, the Oracle proposes a
  recovery command, and that command is issued without \<open>dryRun\<close>, not with
  \<open>dryRun = false\<close>.
\<close>

theorem recovery_options_counterexample:
  "\<not> list_all claimed_exec_settings
       (snd (snd (executeStepsWithResilience env_cmd_fails [''build'']
                    (default_options\<lparr>maxIterations := 1\<rparr>) 0)))"
  by (simp add: run_eval env_cmd_fails_def claimed_exec_settings_def
        step_exec_opts_def recovery_exec_opts_def)

section \<open>What a run keeps of its history\<close>

lemma history_kept_refl: "history_kept s s"
  by (simp add: history_kept_def)

lemma take_chain:
  assumes "i \<le> j" "take j zs = take j ys" "take i ys = take i xs"
  shows "take i zs = take i xs"
proof -
  have "take i zs = take i (take j zs)" using assms(1) by (simp add: min_absorb1)
  also have "\<dots> = take i (take j ys)" using assms(2) by simp
  also have "\<dots> = take i ys" using assms(1) by (simp add: min_absorb1)
  finally show ?thesis using assms(3) by simp
qed

lemma history_kept_trans:
  assumes "history_kept s s'" "history_kept s' s''"
  shows "history_kept s s''"
proof -
  from assms obtain x y where
    x: "completedSteps (ctx s') = completedSteps (ctx s) @ x" and
    y: "completedSteps (ctx s'') = completedSteps (ctx s') @ y"
    by (auto simp: history_kept_def prefix_def)
  have i: "currentStepIndex s \<le> currentStepIndex s'"
    and t1: "take (currentStepIndex s) (currentSteps s') = take (currentStepIndex s) (currentSteps s)"
    and t2: "take (currentStepIndex s') (currentSteps s'') = take (currentStepIndex s') (currentSteps s')"
    using assms by (simp_all add: history_kept_def)
  have t: "take (currentStepIndex s) (currentSteps s'') = take (currentStepIndex s) (currentSteps s)"
    by (rule take_chain [OF i t2 t1])
  have p: "prefix (failures (ctx s)) (failures (ctx s''))"
    using assms by (auto simp: history_kept_def)
  have l: "list_all (\<lambda>c. cs_status c = ''success'')
        (drop (length (completedSteps (ctx s))) (completedSteps (ctx s'')))"
    using assms x y by (simp add: history_kept_def)
  have c: "prefix (completedSteps (ctx s)) (completedSteps (ctx s''))"
    using x y by simp
  have r: "reassessments (ctx s) \<le> reassessments (ctx s'')"
    "reassessments (ctx s'') = reassessments (ctx s) \<longrightarrow> currentSteps s'' = currentSteps s"
    "currentStepIndex s \<le> currentStepIndex s''"
    using assms by (auto simp: history_kept_def)
  show ?thesis
    unfolding history_kept_def using t p l c r by simp
qed

lemma reassessPlan_nonempty:
  "steps \<noteq> [] \<Longrightarrow> re_revisedSteps (fst (reassessPlan env steps c io0)) \<noteq> []"
  by (auto simp: reassessPlan_def Let_def split: prod.splits sum.splits)

lemma on_success_kept: "history_kept s (on_success step it r io1 s)"
  by (simp add: history_kept_def on_success_def)

lemma do_reassess_kept:
  assumes "prefix (failures (ctx s)) (failures c1)" "completedSteps c1 = completedSteps (ctx s)"
    "reassessments c1 = reassessments (ctx s)" "currentStepIndex s < length (currentSteps s)"
  shows "history_kept s (do_reassess env cf c1 io1 s)"
  using assms by (auto simp: history_kept_def do_reassess_def split: prod.splits)

lemma do_recover_kept:
  assumes "prefix (failures (ctx s)) (failures c1)" "completedSteps c1 = completedSteps (ctx s)"
    "reassessments c1 = reassessments (ctx s)"
  shows "history_kept s (do_recover env step it r cf c1 io1 s)"
  using assms
  by (auto simp: history_kept_def do_recover_def Let_def
           split: prod.splits sum.splits recovery.splits)

lemma on_failure_kept:
  "currentStepIndex s < length (currentSteps s) \<Longrightarrow>
   history_kept s (on_failure env opts step it r io1 s)"
  by (simp add: on_failure_def Let_def do_reassess_kept do_recover_kept record_failure_def)

lemma loop_body_kept:
  "currentStepIndex s < length (currentSteps s) \<Longrightarrow> history_kept s (loop_body env opts it s)"
  by (simp add: loop_body_def Let_def on_success_kept on_failure_kept split: prod.splits)

lemma run_n_kept: "history_kept s (snd (run_n env opts n it s))"
proof (induction n arbitrary: it s)
  case 0
  show ?case by (simp add: history_kept_refl)
next
  case (Suc n)
  show ?case
  proof (cases "running opts it s")
    case True
    then have "currentStepIndex s < length (currentSteps s)" by (simp add: running_def)
    from history_kept_trans [OF loop_body_kept [OF this] Suc.IH] True
    show ?thesis by simp
  next
    case False
    then show ?thesis by (simp add: history_kept_refl)
  qed
qed

lemma exec_loop_kept: "history_kept s (snd (exec_loop env opts it s))"
proof (induction env opts it s rule: exec_loop.induct)
  case (1 env opts iteration s)
  show ?case
  proof (cases "running opts iteration s")
    case True
    then have "currentStepIndex s < length (currentSteps s)" by (simp add: running_def)
    from history_kept_trans [OF loop_body_kept [OF this] 1 [OF True]]
    show ?thesis unfolding exec_loop_step [OF True] .
  next
    case False
    show ?thesis unfolding exec_loop_stop [OF False] by (simp add: history_kept_refl)
  qed
qed




section \<open>Rounding to a double\<close>

lemmas double_eval =
  percentage_def double_value_def times_100_def round_ratio_def nearest_even_def
  exponent_of_def ge_pow2_def pow2_def compute_floorlog Let_def

text \<open>
  Two values of \<open>(a / b) * 100\<close>: \<open>(2 / 3) * 100\<close> is \<open>66.66666666666666\<close> and
  \<open>(7 / 25) * 100\<close> is \<open>28.000000000000004\<close>, here as the exact values of these doubles.
\<close>

lemma percentage_2_of_3: "percentage 2 3 = Num (2345624805922133 / 35184372088832)"
  by (simp add: double_eval)

lemma percentage_7_of_25: "percentage 7 25 = Num (7881299347898369 / 281474976710656)"
  by (simp add: double_eval)

lemma pow2_pos: "0 < pow2 k"
  by (simp add: pow2_def)

lemma pow2_add: "pow2 (a + b) = pow2 a * pow2 b"
proof -
  have "pow2 k = power_int 2 k" for k
    by (simp add: pow2_def power_int_def inverse_eq_divide power_one_over)
  then show ?thesis by (simp add: power_int_add)
qed

lemma pow2_minus: "pow2 (- k) = 1 / pow2 k"
  using pow2_add [of k "- k"] pow2_pos [of k] by (simp add: pow2_def field_simps)

lemma pow2_nat: "pow2 (int n) = 2 ^ n"
  by (simp add: pow2_def)

lemma nearest_even_close:
  assumes "0 < d"
  shows "\<bar>of_nat (nearest_even n d) - (of_nat n / of_nat d :: rat)\<bar> \<le> 1 / 2"
proof -
  let ?k = "n div d" and ?r = "n mod d"
  have n: "(of_nat n :: rat) = of_nat ?k * of_nat d + of_nat ?r"
    by (metis mult.commute of_nat_add of_nat_mult div_mult_mod_eq)
  have q: "(of_nat n / of_nat d :: rat) = of_nat ?k + of_nat ?r / of_nat d"
    using assms by (simp add: n add_divide_distrib)
  have r: "?r < d" using assms by simp
  show ?thesis
  proof (cases "2 * ?r < d")
    case True
    then have "(2 * of_nat ?r :: rat) \<le> of_nat d"
      by (metis less_imp_le of_nat_le_iff of_nat_mult of_nat_numeral)
    then have "(of_nat ?r / of_nat d :: rat) \<le> 1 / 2"
      using assms by (simp add: field_simps)
    with True show ?thesis
      by (simp add: nearest_even_def q Let_def)
  next
    case False
    have h: "(of_nat d :: rat) \<le> 2 * of_nat ?r"
      using False by (metis not_less of_nat_le_iff of_nat_mult of_nat_numeral)
    have u: "(of_nat ?r / of_nat d :: rat) \<le> 1"
      using r assms by (simp add: field_simps)
    have l: "(1 / 2 :: rat) \<le> of_nat ?r / of_nat d"
      using h assms by (simp add: field_simps)
    show ?thesis
    proof (cases "d < 2 * ?r")
      case True
      with False u l show ?thesis by (simp add: nearest_even_def q Let_def abs_if)
    next
      case f: False
      with False have "2 * ?r = d" by simp
      then have "(2 * of_nat ?r :: rat) = of_nat d"
        by (metis of_nat_mult of_nat_numeral)
      then have "(of_nat ?r / of_nat d :: rat) = 1 / 2"
        using assms by (simp add: field_simps)
      with False f show ?thesis
        by (cases "even (n div d)") (simp_all add: nearest_even_def q Let_def)
    qed
  qed
qed


lemma ge_pow2_iff:
  assumes "0 < q"
  shows "ge_pow2 p q d = (pow2 d \<le> of_nat p / of_nat q)"
proof (cases "0 \<le> d")
  case True
  have "(q * 2 ^ nat d \<le> p) = ((of_nat (q * 2 ^ nat d) :: rat) \<le> of_nat p)"
    by (simp only: of_nat_le_iff)
  then show ?thesis
    using True assms by (simp add: ge_pow2_def pow2_def field_simps)
next
  case False
  have "(q \<le> p * 2 ^ nat (- d)) = ((of_nat q :: rat) \<le> of_nat (p * 2 ^ nat (- d)))"
    by (simp only: of_nat_le_iff)
  then show ?thesis
    using False assms by (simp add: ge_pow2_def pow2_def field_simps)
qed

lemma exponent_below:
  assumes "0 < p" "0 < q"
  shows "pow2 (exponent_of p q) \<le> of_nat p / of_nat q"
proof (cases "ge_pow2 p q (int (floorlog 2 p) - int (floorlog 2 q))")
  case True
  then show ?thesis
    using ge_pow2_iff [OF assms(2)] by (simp add: exponent_of_def)
next
  case False
  let ?a = "floorlog 2 p" and ?b = "floorlog 2 q"
  from floorlog_bounds [of p 2] assms(1) have lp: "2 ^ (?a - 1) \<le> p" by simp
  from floorlog_bounds [of q 2] assms(2) have uq: "q < 2 ^ ?b" by simp
  have a1: "1 \<le> ?a" using assms(1) by (simp add: floorlog_def)
  have "int ?a - int ?b - 1 = int (?a - 1) + (- int ?b)"
    using a1 by simp
  then have "pow2 (int ?a - int ?b - 1) = pow2 (int (?a - 1)) * pow2 (- int ?b)"
    by (simp only: pow2_add)
  also have "\<dots> = 2 ^ (?a - 1) / 2 ^ ?b"
    by (simp add: pow2_minus pow2_nat)
  also have "\<dots> \<le> of_nat p / of_nat q"
  proof -
    have 1: "(2 ^ (?a - 1) :: rat) \<le> of_nat p"
      using lp by (metis of_nat_le_iff of_nat_numeral of_nat_power)
    have 2: "(of_nat q :: rat) \<le> 2 ^ ?b"
      using uq by (metis less_imp_le of_nat_le_iff of_nat_numeral of_nat_power)
    show ?thesis
      using 1 2 assms by (intro frac_le) simp_all
  qed
  finally show ?thesis using False by (simp add: exponent_of_def)
qed

lemma round_ratio_close:
  assumes "0 < p" "0 < q"
  shows "\<bar>double_value (round_ratio p q) - of_nat p / of_nat q\<bar>
           \<le> (of_nat p / of_nat q) / 2 ^ 53"
proof -
  let ?e = "exponent_of p q"
  let ?x = "of_nat p / of_nat q :: rat"
  let ?m = "fst (round_ratio p q)"
  have k: "snd (round_ratio p q) = ?e - 52" by (simp add: round_ratio_def Let_def)
  have m: "\<bar>of_nat ?m - ?x * pow2 (52 - ?e)\<bar> \<le> 1 / 2"
  proof (cases "0 \<le> 52 - ?e")
    case True
    have mm: "fst (round_ratio p q) = nearest_even (p * 2 ^ nat (52 - ?e)) q"
      using True by (simp add: round_ratio_def Let_def)
    have eq: "?x * pow2 (52 - ?e) = of_nat (p * 2 ^ nat (52 - ?e)) / of_nat q"
      using True by (simp add: pow2_def)
    show ?thesis
      unfolding mm eq by (rule nearest_even_close [OF assms(2)])
  next
    case False
    have mm: "fst (round_ratio p q) = nearest_even p (q * 2 ^ nat (- (52 - ?e)))"
      using False by (simp add: round_ratio_def Let_def)
    have eq: "?x * pow2 (52 - ?e) = of_nat p / of_nat (q * 2 ^ nat (- (52 - ?e)))"
      using False by (simp add: pow2_def)
    have "0 < q * 2 ^ nat (- (52 - ?e))" using assms(2) by simp
    then show ?thesis
      unfolding mm eq by (rule nearest_even_close)
  qed
  have i: "pow2 (52 - ?e) * pow2 (?e - 52) = 1"
    using pow2_add [of "52 - ?e" "?e - 52"] by (simp add: pow2_def)
  have "double_value (round_ratio p q) - ?x
          = (of_nat ?m - ?x * pow2 (52 - ?e)) * pow2 (?e - 52)"
    using i by (simp add: double_value_def k algebra_simps)
  then have "\<bar>double_value (round_ratio p q) - ?x\<bar>
          = \<bar>of_nat ?m - ?x * pow2 (52 - ?e)\<bar> * pow2 (?e - 52)"
    using pow2_pos [of "?e - 52"] by (simp add: abs_mult)
  also have "\<dots> \<le> (1 / 2) * pow2 (?e - 52)"
    using m pow2_pos [of "?e - 52"] by (intro mult_right_mono) simp_all
  also have "\<dots> = pow2 ?e / 2 ^ 53"
    using pow2_add [of ?e "- 52"] by (simp add: pow2_minus pow2_def)
  also have "\<dots> \<le> ?x / 2 ^ 53"
    using exponent_below [OF assms] by (simp add: divide_right_mono)
  finally show ?thesis .
qed


lemma times_100_close:
  assumes "0 < fst x"
  shows "\<bar>double_value (times_100 x) - 100 * double_value x\<bar>
           \<le> (100 * double_value x) / 2 ^ 53"
proof (cases "0 \<le> snd x")
  case True
  have v: "100 * double_value x = of_nat (fst x * 100 * 2 ^ nat (snd x)) / of_nat 1"
    using True by (simp add: double_value_def pow2_def)
  have "0 < fst x * 100 * 2 ^ nat (snd x)" using assms by simp
  from round_ratio_close [OF this, of 1] True show ?thesis
    unfolding v by (simp add: times_100_def)
next
  case False
  have v: "100 * double_value x = of_nat (fst x * 100) / of_nat (2 ^ nat (- snd x))"
    using False by (simp add: double_value_def pow2_def)
  have "0 < fst x * 100" "0 < (2::nat) ^ nat (- snd x)" using assms by simp_all
  from round_ratio_close [OF this] False show ?thesis
    unfolding v by (simp add: times_100_def)
qed

lemma round_ratio_pos:
  assumes "0 < p" "0 < q"
  shows "0 < fst (round_ratio p q)"
proof (rule ccontr)
  assume "\<not> 0 < fst (round_ratio p q)"
  then have "double_value (round_ratio p q) = 0" by (simp add: double_value_def)
  with round_ratio_close [OF assms]
  have "(of_nat p / of_nat q :: rat) \<le> (of_nat p / of_nat q) / 2 ^ 53" by simp
  moreover have "(0::rat) < of_nat p / of_nat q" using assms by simp
  ultimately show False by (simp add: field_simps)
qed

lemma percentage_close:
  assumes "0 < a" "0 < b"
  shows "\<exists>r. percentage a b = Num r \<and>
             \<bar>r - 100 * of_nat a / of_nat b\<bar>
               \<le> (100 * of_nat a / of_nat b) * ((1 + 1 / 2 ^ 53)\<^sup>2 - 1)"
proof -
  let ?x = "of_nat a / of_nat b :: rat"
  let ?r1 = "double_value (round_ratio a b)"
  let ?r = "double_value (times_100 (round_ratio a b))"
  let ?u = "1 / 2 ^ 53 :: rat"
  have x: "0 < ?x" using assms by simp
  have 1: "\<bar>?r1 - ?x\<bar> \<le> ?x * ?u"
    using round_ratio_close [OF assms] by simp
  have 2: "\<bar>?r - 100 * ?r1\<bar> \<le> 100 * ?r1 * ?u"
    using times_100_close [OF round_ratio_pos [OF assms]] by simp
  from 1 have 3: "?r1 \<le> ?x * (1 + ?u)" by (simp add: abs_le_iff algebra_simps)
  have "\<bar>?r - 100 * ?x\<bar> \<le> \<bar>?r - 100 * ?r1\<bar> + 100 * \<bar>?r1 - ?x\<bar>"
    by (simp add: abs_if split: if_splits)
  also have "\<dots> \<le> 100 * ?r1 * ?u + 100 * (?x * ?u)"
    using 1 2 by (intro add_mono) simp_all
  also have "\<dots> \<le> 100 * (?x * (1 + ?u)) * ?u + 100 * (?x * ?u)"
    using 3 by (intro add_mono mult_right_mono mult_left_mono) simp_all
  also have "\<dots> = (100 * ?x) * ((1 + ?u)\<^sup>2 - 1)"
    by (simp add: power2_eq_square algebra_simps)
  finally have "\<bar>?r - 100 * of_nat a / of_nat b\<bar>
               \<le> (100 * of_nat a / of_nat b) * ((1 + 1 / 2 ^ 53)\<^sup>2 - 1)" by simp
  moreover have "percentage a b = Num ?r" using assms by (simp add: percentage_def)
  ultimately show ?thesis by blast
qed

lemma percentage_full:
  assumes "0 < n"
  shows "percentage n n = Num 100"
proof -
  have "ge_pow2 n n 0" by (simp add: ge_pow2_def)
  then have e: "exponent_of n n = 0" by (simp add: exponent_of_def)
  have "nearest_even (n * 2 ^ 52) n = 2 ^ 52"
    using assms by (simp add: nearest_even_def)
  then have r: "round_ratio n n = (2 ^ 52, - 52)"
    by (simp add: round_ratio_def e)
  have "double_value (times_100 (2 ^ 52, - 52)) = 100"
    by (simp add: double_value_def times_100_def round_ratio_def nearest_even_def
          exponent_of_def ge_pow2_def pow2_def compute_floorlog Let_def)
  then show ?thesis using assms by (simp add: percentage_def r)
qed

text \<open>
  The result of \<open>round_ratio\<close> has a significand of 53 bits: it lies between \<open>2^52\<close>
  and \<open>2^53\<close>, the upper end when the quotient is rounded up to the next power of two.
\<close>

lemma exponent_above:
  assumes "0 < p" "0 < q"
  shows "of_nat p / of_nat q < pow2 (exponent_of p q + 1)"
proof (cases "ge_pow2 p q (int (floorlog 2 p) - int (floorlog 2 q))")
  case False
  then show ?thesis
    using ge_pow2_iff [OF assms(2), of p "int (floorlog 2 p) - int (floorlog 2 q)"]
    by (simp add: exponent_of_def)
next
  case True
  let ?a = "floorlog 2 p" and ?b = "floorlog 2 q"
  from floorlog_bounds [of p 2] assms(1) have up: "p < 2 ^ ?a" by simp
  from floorlog_bounds [of q 2] assms(2) have lq: "2 ^ (?b - 1) \<le> q" by simp
  have b1: "1 \<le> ?b" using assms(2) by (simp add: floorlog_def)
  have 1: "(of_nat p :: rat) < 2 ^ ?a"
    using up by (metis of_nat_less_iff of_nat_numeral of_nat_power)
  have 2: "(2 ^ (?b - 1) :: rat) \<le> of_nat q"
    using lq by (metis of_nat_le_iff of_nat_numeral of_nat_power)
  have "(of_nat p / of_nat q :: rat) < 2 ^ ?a / 2 ^ (?b - 1)"
    using 1 2 assms by (intro frac_less) simp_all
  also have "\<dots> = pow2 (int ?a) * pow2 (- int (?b - 1))"
    by (simp add: pow2_minus pow2_nat)
  also have "\<dots> = pow2 (int ?a + (- int (?b - 1)))"
    by (simp only: pow2_add)
  also have "int ?a + (- int (?b - 1)) = int ?a - int ?b + 1"
    using b1 by simp
  finally show ?thesis using True by (simp add: exponent_of_def)
qed

lemma nearest_even_between:
  assumes "0 < d" "L * d \<le> n" "n < U * d"
  shows "L \<le> nearest_even n d \<and> nearest_even n d \<le> U"
proof -
  have 1: "L \<le> n div d" using assms(1,2) by (simp add: less_eq_div_iff_mult_less_eq)
  have 2: "n div d < U" using assms(1,3) by (simp add: div_less_iff_less_mult)
  have "nearest_even n d = n div d \<or> nearest_even n d = n div d + 1"
    by (simp add: nearest_even_def Let_def)
  with 1 2 show ?thesis by auto
qed

lemma round_ratio_significand:
  assumes "0 < p" "0 < q"
  shows "2 ^ 52 \<le> fst (round_ratio p q) \<and> fst (round_ratio p q) \<le> 2 ^ 53"
proof -
  let ?e = "exponent_of p q"
  have lo: "pow2 ?e * of_nat q \<le> of_nat p"
    using exponent_below [OF assms] assms(2) by (simp add: field_simps)
  have hi: "of_nat p < pow2 (?e + 1) * of_nat q"
    using exponent_above [OF assms] assms(2) by (simp add: field_simps)
  have p52: "pow2 52 = 2 ^ 52" and p53: "pow2 53 = 2 ^ 53" by (simp_all add: pow2_def)
  show ?thesis
  proof (cases "0 \<le> 52 - ?e")
    case True
    let ?t = "nat (52 - ?e)"
    have mm: "fst (round_ratio p q) = nearest_even (p * 2 ^ ?t) q"
      using True by (simp add: round_ratio_def Let_def)
    have s: "pow2 (52 - ?e) = 2 ^ ?t" using True by (simp add: pow2_def)
    have h1: "pow2 52 = pow2 ?e * pow2 (52 - ?e)"
    proof -
      have "52 = ?e + (52 - ?e)" by simp
      then have "pow2 52 = pow2 (?e + (52 - ?e))" by (rule arg_cong)
      then show ?thesis by (simp only: pow2_add)
    qed
    have h2: "pow2 53 = pow2 (?e + 1) * pow2 (52 - ?e)"
    proof -
      have "53 = (?e + 1) + (52 - ?e)" by simp
      then have "pow2 53 = pow2 ((?e + 1) + (52 - ?e))" by (rule arg_cong)
      then show ?thesis by (simp only: pow2_add)
    qed
    have "(2 ^ 52 :: rat) * of_nat q = (pow2 ?e * pow2 (52 - ?e)) * of_nat q"
      by (simp only: p52 [symmetric] h1 [symmetric])
    also have "\<dots> = (pow2 ?e * of_nat q) * 2 ^ ?t"
      by (simp only: s mult_ac)
    also have "\<dots> \<le> of_nat p * 2 ^ ?t"
      using lo by (intro mult_right_mono) simp_all
    finally have "(of_nat (2 ^ 52 * q) :: rat) \<le> of_nat (p * 2 ^ ?t)"
      by simp
    then have a: "2 ^ 52 * q \<le> p * 2 ^ ?t" by (simp only: of_nat_le_iff)
    have "of_nat p * 2 ^ ?t < (pow2 (?e + 1) * of_nat q) * (2 ^ ?t :: rat)"
      using hi by (intro mult_strict_right_mono) simp_all
    also have "\<dots> = (pow2 (?e + 1) * pow2 (52 - ?e)) * of_nat q"
      by (simp only: s mult_ac)
    also have "\<dots> = 2 ^ 53 * of_nat q"
      by (simp only: p53 [symmetric] h2 [symmetric])
    finally have "(of_nat (p * 2 ^ ?t) :: rat) < of_nat (2 ^ 53 * q)"
      by simp
    then have b: "p * 2 ^ ?t < 2 ^ 53 * q" by (simp only: of_nat_less_iff)
    from nearest_even_between [OF assms(2) a b] show ?thesis unfolding mm .
  next
    case False
    let ?t = "nat (- (52 - ?e))"
    have mm: "fst (round_ratio p q) = nearest_even p (q * 2 ^ ?t)"
      using False by (simp add: round_ratio_def Let_def)
    have s: "pow2 (?e - 52) = 2 ^ ?t" using False by (simp add: pow2_def)
    have h1: "pow2 ?e = pow2 52 * pow2 (?e - 52)"
    proof -
      have "?e = 52 + (?e - 52)" by simp
      then have "pow2 ?e = pow2 (52 + (?e - 52))" by (rule arg_cong)
      then show ?thesis by (simp only: pow2_add)
    qed
    have h2: "pow2 (?e + 1) = pow2 53 * pow2 (?e - 52)"
    proof -
      have "(?e + 1) = 53 + (?e - 52)" by simp
      then have "pow2 (?e + 1) = pow2 (53 + (?e - 52))" by (rule arg_cong)
      then show ?thesis by (simp only: pow2_add)
    qed
    have e1: "pow2 ?e = 2 ^ 52 * 2 ^ ?t" by (simp only: h1 p52 s)
    have e2: "pow2 (?e + 1) = 2 ^ 53 * 2 ^ ?t" by (simp only: h2 p53 s)
    from lo have "(2 ^ 52 * 2 ^ ?t) * of_nat q \<le> (of_nat p :: rat)"
      by (simp only: e1)
    then have "(of_nat (2 ^ 52 * (q * 2 ^ ?t)) :: rat) \<le> of_nat p"
      by (simp add: mult_ac)
    then have a: "2 ^ 52 * (q * 2 ^ ?t) \<le> p" by (simp only: of_nat_le_iff)
    from hi have "(of_nat p :: rat) < (2 ^ 53 * 2 ^ ?t) * of_nat q"
      by (simp only: e2)
    then have "(of_nat p :: rat) < of_nat (2 ^ 53 * (q * 2 ^ ?t))"
      by (simp add: mult_ac)
    then have b: "p < 2 ^ 53 * (q * 2 ^ ?t)" by (simp only: of_nat_less_iff)
    have d: "0 < q * 2 ^ ?t" using assms(2) by simp
    from nearest_even_between [OF d a b] show ?thesis unfolding mm .
  qed
qed

section \<open>The cursor and the summary\<close>

lemma on_success_cursor:
  "cursor_ok s \<Longrightarrow> currentStepIndex s < length (currentSteps s) \<Longrightarrow>
   cursor_ok (on_success step it r io1 s)"
  by (simp add: cursor_ok_def on_success_def)

lemma do_reassess_cursor:
  "cursor_ok s \<Longrightarrow> completedSteps c1 = completedSteps (ctx s) \<Longrightarrow>
   cursor_ok (do_reassess env cf c1 io1 s)"
  by (auto simp: cursor_ok_def do_reassess_def split: prod.splits)

lemma do_recover_cursor:
  "cursor_ok s \<Longrightarrow> completedSteps c1 = completedSteps (ctx s) \<Longrightarrow>
   cursor_ok (do_recover env step it r cf c1 io1 s)"
  by (auto simp: cursor_ok_def do_recover_def Let_def
           split: prod.splits sum.splits recovery.splits)

lemma loop_body_cursor:
  "cursor_ok s \<Longrightarrow> currentStepIndex s < length (currentSteps s) \<Longrightarrow>
   cursor_ok (loop_body env opts it s)"
  by (simp add: loop_body_def Let_def on_success_cursor on_failure_def
                do_reassess_cursor do_recover_cursor record_failure_def split: prod.splits)

lemma exec_loop_cursor: "cursor_ok s \<Longrightarrow> cursor_ok (snd (exec_loop env opts it s))"
proof (induction env opts it s rule: exec_loop.induct)
  case (1 env opts iteration s)
  show ?case
  proof (cases "running opts iteration s")
    case True
    then have "currentStepIndex s < length (currentSteps s)" by (simp add: running_def)
    from 1(1) [OF True loop_body_cursor [OF 1(2) this]]
    show ?thesis unfolding exec_loop_step [OF True] .
  next
    case False
    show ?thesis unfolding exec_loop_stop [OF False] using 1(2) by simp
  qed
qed

lemma init_cursor: "cursor_ok (init_state steps opts w)"
  by (simp add: cursor_ok_def init_state_def)

lemma finish_summary:
  assumes "finish env steps opts (it, s) = (Inr sm, io1)"
  shows "thrown s = None \<and> (\<exists>v. sm = make_summary opts it s v)"
  using assms
  by (auto simp: finish_def split: option.splits if_splits prod.splits sum.splits)

text \<open>
  Claim C8. When \<open>executeStepsWithResilience\<close> returns a summary: \<open>iterations\<close> is the
  counter of the loop, \<open>totalSteps\<close> is the length of the final plan (the plan as the
  last reassessment left it) and \<open>completedSteps\<close> is the history of the loop, never
  longer than that plan; \<open>success\<close> says that every step of the final plan is completed.
  \<open>successRate\<close> is the double that \<open>(completed / totalSteps) * 100\<close> gives: \<open>NaN\<close> for
  an empty plan, 0 when nothing is completed, exactly 100 when everything is, and
  otherwise the percentage of the completed steps in the final plan up to the rounding
  of one division and one multiplication of doubles. So a run that reaches
  \<open>maxIterations\<close> with steps left has \<open>success = false\<close> and
  \<open>reachedMaxIterations = true\<close>.
\<close>

theorem summary_at_exhaustion:
  assumes "executeStepsWithResilience env steps opts w = (Inr sm, io1)"
  shows "sm_iterations sm = fst (exec_loop env opts 0 (init_state steps opts w)) \<and>
         sm_totalSteps sm = length (currentSteps (snd (exec_loop env opts 0 (init_state steps opts w)))) \<and>
         sm_completedSteps sm = completedSteps (ctx (snd (exec_loop env opts 0 (init_state steps opts w)))) \<and>
         length (sm_completedSteps sm) \<le> sm_totalSteps sm \<and>
         sm_success sm = (length (sm_completedSteps sm) = sm_totalSteps sm) \<and>
         sm_successRate sm = percentage (length (sm_completedSteps sm)) (sm_totalSteps sm) \<and>
         (sm_totalSteps sm = 0 \<longrightarrow> sm_successRate sm = NaN) \<and>
         (0 < sm_totalSteps sm \<and> sm_completedSteps sm = [] \<longrightarrow> sm_successRate sm = Num 0) \<and>
         (0 < sm_totalSteps sm \<and> sm_success sm \<longrightarrow> sm_successRate sm = Num 100) \<and>
         (sm_completedSteps sm \<noteq> [] \<longrightarrow>
            (\<exists>r. sm_successRate sm = Num r \<and>
                 \<bar>r - 100 * of_nat (length (sm_completedSteps sm)) / of_nat (sm_totalSteps sm)\<bar>
                   \<le> (100 * of_nat (length (sm_completedSteps sm)) / of_nat (sm_totalSteps sm))
                       * ((1 + 1 / 2 ^ 53)\<^sup>2 - 1))) \<and>
         (maxIterations opts \<le> int (sm_iterations sm) \<and>
          length (sm_completedSteps sm) < sm_totalSteps sm \<longrightarrow>
            sm_success sm = False \<and> sm_reachedMaxIterations sm = True)"
proof -
  obtain it s where r: "exec_loop env opts 0 (init_state steps opts w) = (it, s)"
    by (cases "exec_loop env opts 0 (init_state steps opts w)")
  from assms r have f: "finish env steps opts (it, s) = (Inr sm, io1)"
    by (simp add: executeStepsWithResilience_def)
  from finish_summary [OF f] obtain v where sm: "sm = make_summary opts it s v" by blast
  from exec_loop_cursor [OF init_cursor, of env opts 0 steps opts w] r
  have c: "cursor_ok s" by simp
  let ?c = "length (completedSteps (ctx s))" and ?n = "length (currentSteps s)"
  have le: "?c \<le> ?n" using c by (simp add: cursor_ok_def)
  have rate: "sm_successRate sm = percentage ?c ?n"
    by (simp add: sm make_summary_def Let_def)
  have ne: "completedSteps (ctx s) \<noteq> [] \<longrightarrow> currentSteps s \<noteq> []"
    using le by (cases "currentSteps s") auto
  have 1: "?n = 0 \<longrightarrow> sm_successRate sm = NaN"
    using ne by (auto simp add: rate percentage_def)
  have 2: "0 < ?n \<and> completedSteps (ctx s) = [] \<longrightarrow> sm_successRate sm = Num 0"
    by (simp add: rate percentage_def)
  have 3: "0 < ?n \<and> ?c = ?n \<longrightarrow> sm_successRate sm = Num 100"
    by (simp add: rate percentage_full)
  have 4: "completedSteps (ctx s) \<noteq> [] \<longrightarrow>
            (\<exists>r. sm_successRate sm = Num r \<and>
                 \<bar>r - 100 * of_nat ?c / of_nat ?n\<bar>
                   \<le> (100 * of_nat ?c / of_nat ?n) * ((1 + 1 / 2 ^ 53)\<^sup>2 - 1))"
  proof
    assume "completedSteps (ctx s) \<noteq> []"
    then have "0 < ?c" by simp
    moreover from this le have "0 < ?n" by (cases "currentSteps s") auto
    ultimately show "\<exists>r. sm_successRate sm = Num r \<and>
                 \<bar>r - 100 * of_nat ?c / of_nat ?n\<bar>
                   \<le> (100 * of_nat ?c / of_nat ?n) * ((1 + 1 / 2 ^ 53)\<^sup>2 - 1)"
      unfolding rate by (rule percentage_close)
  qed
  have 5: "sm_iterations sm = it" "sm_totalSteps sm = ?n"
    "sm_completedSteps sm = completedSteps (ctx s)"
    "sm_success sm = (?c = ?n)" "sm_reachedMaxIterations sm = (maxIterations opts \<le> int it)"
    using c by (auto simp: sm make_summary_def Let_def cursor_ok_def)
  show ?thesis
    unfolding 5 r fst_conv snd_conv using 1 2 3 4 le ne rate by auto
qed

theorem summary_at_exhaustion_witness:
  "case fst (executeStepsWithResilience env_revise [''a'', ''b'', ''c''] opts_strict 0) of
     Inl e \<Rightarrow> False
   | Inr sm \<Rightarrow>
       maxIterations opts_strict \<le> int (sm_iterations sm) \<and>
       length (sm_completedSteps sm) = 2 \<and> sm_totalSteps sm = 3 \<and>
       sm_reassessments sm = 1 \<and>
       sm_successRate sm = Num (2345624805922133 / 35184372088832) \<and>
       sm_success sm = False \<and> sm_reachedMaxIterations sm = True"
proof -
  obtain r io1 where e: "executeStepsWithResilience env_revise [''a'', ''b'', ''c''] opts_strict 0 = (r, io1)"
    by (cases "executeStepsWithResilience env_revise [''a'', ''b'', ''c''] opts_strict 0")
  have k: "case r of Inl e \<Rightarrow> False
     | Inr sm \<Rightarrow> sm_iterations sm = 3 \<and> length (sm_completedSteps sm) = 2 \<and> sm_totalSteps sm = 3 \<and> sm_reassessments sm = 1"
    using e by (auto simp add: run_eval text_eval env_revise_def opts_strict_def)
  then obtain sm where sm: "r = Inr sm" by (cases r) auto
  from k have k1: "sm_iterations sm = 3" and k2: "length (sm_completedSteps sm) = 2"
    and k3: "sm_totalSteps sm = 3" and k4: "sm_reassessments sm = 1"
    by (simp_all add: sm)
  have m: "maxIterations opts_strict \<le> int (sm_iterations sm)"
    by (simp add: k1 opts_strict_def default_options_def)
  have l: "length (sm_completedSteps sm) < sm_totalSteps sm"
    by (simp add: k2 k3)
  note t = summary_at_exhaustion [OF e [unfolded sm]]
  from t have "sm_successRate sm = percentage (length (sm_completedSteps sm)) (sm_totalSteps sm)"
    by blast
  then have rate: "sm_successRate sm = Num (2345624805922133 / 35184372088832)"
    by (simp only: k2 k3 percentage_2_of_3)
  from t m l have "sm_success sm = False \<and> sm_reachedMaxIterations sm = True"
    by blast
  with m k2 k3 k4 rate show ?thesis
    unfolding e sm by simp
qed

section \<open>History and termination of a run\<close>

text \<open>
  Claim C5. Take any state \<open>s\<close> of a run and any later state of the same run, after \<open>n\<close>
  more passes or at the end of the loop. The completed steps of \<open>s\<close> are still the first
  completed steps, unchanged (nothing leaves the history or goes back to pending), every
  entry added since has status \<open>success\<close>, the failures of \<open>s\<close> are still recorded, the
  cursor has not moved back, the plan before the cursor of \<open>s\<close> is unchanged, and the plan
  as a whole is unchanged unless a reassessment was counted in between: a reassessment
  is the only thing that rewrites the plan, and it rewrites the part from the cursor on.
\<close>

theorem plan_and_history_kept:
  "history_kept s (snd (run_n env opts n it s)) \<and>
   history_kept s (snd (exec_loop env opts it s))"
  by (simp add: run_n_kept exec_loop_kept)

theorem plan_and_history_kept_witness:
  "history_kept
     (snd (run_n env_revise opts_strict 1 0 (init_state [''a'', ''b'', ''c''] opts_strict 0)))
     (snd (exec_loop env_revise opts_strict 1
        (snd (run_n env_revise opts_strict 1 0 (init_state [''a'', ''b'', ''c''] opts_strict 0))))) \<and>
   currentSteps
     (snd (run_n env_revise opts_strict 1 0 (init_state [''a'', ''b'', ''c''] opts_strict 0)))
     = [''a'', ''b'', ''c''] \<and>
   currentStepIndex
     (snd (run_n env_revise opts_strict 1 0 (init_state [''a'', ''b'', ''c''] opts_strict 0)))
     = 1 \<and>
   currentSteps
     (snd (exec_loop env_revise opts_strict 1
        (snd (run_n env_revise opts_strict 1 0 (init_state [''a'', ''b'', ''c''] opts_strict 0)))))
     = [''a'', ''x'', ''y''] \<and>
   reassessments (ctx
     (snd (exec_loop env_revise opts_strict 1
        (snd (run_n env_revise opts_strict 1 0 (init_state [''a'', ''b'', ''c''] opts_strict 0))))))
     = 1"
proof -
  have "currentSteps
     (snd (run_n env_revise opts_strict 1 0 (init_state [''a'', ''b'', ''c''] opts_strict 0)))
     = [''a'', ''b'', ''c'']"
    by (simp add: run_eval env_revise_def opts_strict_def)
  moreover have "currentStepIndex
     (snd (run_n env_revise opts_strict 1 0 (init_state [''a'', ''b'', ''c''] opts_strict 0)))
     = 1"
    by (simp add: run_eval env_revise_def opts_strict_def)
  moreover have "currentSteps
     (snd (exec_loop env_revise opts_strict 1
        (snd (run_n env_revise opts_strict 1 0 (init_state [''a'', ''b'', ''c''] opts_strict 0)))))
     = [''a'', ''x'', ''y'']"
    by (simp add: run_eval text_eval env_revise_def opts_strict_def)
  moreover have "reassessments (ctx
     (snd (exec_loop env_revise opts_strict 1
        (snd (run_n env_revise opts_strict 1 0 (init_state [''a'', ''b'', ''c''] opts_strict 0))))))
     = 1"
    by (simp add: run_eval text_eval env_revise_def opts_strict_def)
  ultimately show ?thesis
    using plan_and_history_kept
      [of "snd (run_n env_revise opts_strict 1 0 (init_state [''a'', ''b'', ''c''] opts_strict 0))"
          env_revise opts_strict 0 1]
    by simp
qed




section \<open>Failures, reassessment and recovery\<close>

text \<open>
  Claim C4, as the loop implements it. When a step fails and the failure brings
  \<open>consecutiveFailures\<close> to \<open>maxConsecutiveFailures\<close> or beyond, the loop asks the Oracle
  to reassess the part of the plan from the cursor on, with the failure just recorded in
  the history. If the Oracle answers, that part is replaced by the numbered steps read
  from the answer (it is kept as it is when the answer holds none), \<open>reassessments\<close>
  increases by 1 and \<open>consecutiveFailures\<close> is reset to 0. If the call to the Oracle is
  rejected, the plan and \<open>reassessments\<close> stay as they are and \<open>consecutiveFailures\<close>
  keeps its incremented value.
\<close>

theorem reassessment_at_threshold:
  assumes "executeStep env (currentSteps s ! currentStepIndex s) (ctx s) (temperature opts) (io s)
             = (result, io1)"
    and "r_success result \<noteq> Some True"
    and "maxConsecutiveFailures opts \<le> int (Suc (consecutiveFailures s))"
    and "c1 = record_failure (currentSteps s ! currentStepIndex s) it result (ctx s)"
    and "call_oracle env (reassess_prompt (drop (currentStepIndex s) (currentSteps s)) c1)
           \<lparr>q_temperature = 8 / 10, q_context = globalContext (ctx s)\<rparr> io1 = (answer, io2)"
  shows "io (loop_body env opts it s) = io2 \<and>
         failures (ctx (loop_body env opts it s)) = failures c1 \<and>
         (case answer of
            Inr resp \<Rightarrow>
              currentSteps (loop_body env opts it s) =
                take (currentStepIndex s) (currentSteps s) @
                (if revised_of resp \<noteq> [] then revised_of resp
                 else drop (currentStepIndex s) (currentSteps s)) \<and>
              reassessments (ctx (loop_body env opts it s)) = Suc (reassessments (ctx s)) \<and>
              consecutiveFailures (loop_body env opts it s) = 0
          | Inl msg \<Rightarrow>
              currentSteps (loop_body env opts it s) = currentSteps s \<and>
              reassessments (ctx (loop_body env opts it s)) = reassessments (ctx s) \<and>
              consecutiveFailures (loop_body env opts it s) = Suc (consecutiveFailures s))"
proof -
  have g: "globalContext c1 = globalContext (ctx s)" "reassessments c1 = reassessments (ctx s)"
    using assms(4) by (simp_all add: record_failure_def)
  have b: "loop_body env opts it s =
           do_reassess env (Suc (consecutiveFailures s)) c1 io1 s"
    using assms(1-4) by (simp add: loop_body_def on_failure_def Let_def)
  show ?thesis
    unfolding b using assms(5) g
    by (cases answer) (simp_all add: do_reassess_def reassessPlan_def Let_def)
qed

theorem reassessment_at_threshold_witness:
  "currentSteps (loop_body env_replan opts_strict 1 (init_state [''a''] opts_strict 0)) = [''x'', ''y''] \<and>
   reassessments (ctx (loop_body env_replan opts_strict 1 (init_state [''a''] opts_strict 0))) = 1 \<and>
   consecutiveFailures (loop_body env_replan opts_strict 1 (init_state [''a''] opts_strict 0)) = 0 \<and>
   currentSteps (loop_body env_down opts_strict 1 (init_state [''a''] opts_strict 0)) = [''a''] \<and>
   reassessments (ctx (loop_body env_down opts_strict 1 (init_state [''a''] opts_strict 0))) = 0 \<and>
   consecutiveFailures (loop_body env_down opts_strict 1 (init_state [''a''] opts_strict 0)) = 1"
proof -
  let ?s0 = "init_state [''a''] opts_strict (0::nat)"
  let ?step = "currentSteps ?s0 ! currentStepIndex ?s0"
  let ?qo = "\<lparr>q_temperature = 8 / 10, q_context = globalContext (ctx ?s0)\<rparr>"
  have m: "maxConsecutiveFailures opts_strict \<le> int (Suc (consecutiveFailures ?s0))"
    by (simp add: opts_strict_def default_options_def init_state_def)
  \<comment> \<open>the Oracle answers the reassessment\<close>
  let ?x1 = "executeStep env_replan ?step (ctx ?s0) (temperature opts_strict) (io ?s0)"
  let ?c1 = "record_failure ?step 1 (fst ?x1) (ctx ?s0)"
  let ?o1 = "call_oracle env_replan
               (reassess_prompt (drop (currentStepIndex ?s0) (currentSteps ?s0)) ?c1) ?qo (snd ?x1)"
  have f1: "r_success (fst ?x1) \<noteq> Some True"
    by (simp add: run_eval env_replan_def opts_strict_def)
  have a1: "fst ?o1 = Inr (answer_text (''1. x'' @ nl @ ''2. y''))"
    by (simp add: run_eval env_replan_def opts_strict_def)
  have r1: "revised_of (answer_text (''1. x'' @ nl @ ''2. y'')) = [''x'', ''y'']"
    by (simp add: run_eval text_eval)
  from reassessment_at_threshold
         [of env_replan ?s0 opts_strict "fst ?x1" "snd ?x1" ?c1 1 "fst ?o1" "snd ?o1",
          OF prod.collapse [symmetric] f1 m refl prod.collapse [symmetric],
          unfolded a1 sum.case r1]
  have a: "currentSteps (loop_body env_replan opts_strict 1 ?s0) = [''x'', ''y''] \<and>
   reassessments (ctx (loop_body env_replan opts_strict 1 ?s0)) = 1 \<and>
   consecutiveFailures (loop_body env_replan opts_strict 1 ?s0) = 0"
    by (simp add: init_state_def)
  \<comment> \<open>the Oracle call of the reassessment is rejected\<close>
  let ?x2 = "executeStep env_down ?step (ctx ?s0) (temperature opts_strict) (io ?s0)"
  let ?c2 = "record_failure ?step 1 (fst ?x2) (ctx ?s0)"
  let ?o2 = "call_oracle env_down
               (reassess_prompt (drop (currentStepIndex ?s0) (currentSteps ?s0)) ?c2) ?qo (snd ?x2)"
  have f2: "r_success (fst ?x2) \<noteq> Some True"
    by (simp add: run_eval env_down_def opts_strict_def)
  have a2: "fst ?o2 = Inl ''oracle unreachable''"
    by (simp add: run_eval env_down_def opts_strict_def)
  from reassessment_at_threshold
         [of env_down ?s0 opts_strict "fst ?x2" "snd ?x2" ?c2 1 "fst ?o2" "snd ?o2",
          OF prod.collapse [symmetric] f2 m refl prod.collapse [symmetric],
          unfolded a2 sum.case]
  have b: "currentSteps (loop_body env_down opts_strict 1 ?s0) = [''a''] \<and>
   reassessments (ctx (loop_body env_down opts_strict 1 ?s0)) = 0 \<and>
   consecutiveFailures (loop_body env_down opts_strict 1 ?s0) = 1"
    by (simp add: init_state_def)
  from a b show ?thesis by simp
qed

text \<open>
  Claim C4 as the specification words it fails when the Oracle is unreachable: with a
  threshold of 1 the first failure reaches the threshold, and after the pass
  \<open>reassessments\<close> is still 0 and \<open>consecutiveFailures\<close> is 1.
\<close>

theorem reassessment_counter_counterexample:
  "maxConsecutiveFailures opts_strict
     \<le> int (Suc (consecutiveFailures (init_state [''a''] opts_strict (0::nat)))) \<and>
   r_success (fst (executeStep env_down ''a'' (ctx (init_state [''a''] opts_strict 0))
                (temperature opts_strict) (io (init_state [''a''] opts_strict 0)))) \<noteq> Some True \<and>
   \<not> (reassessments (ctx (loop_body env_down opts_strict 1 (init_state [''a''] opts_strict 0)))
        = Suc (reassessments (ctx (init_state [''a''] opts_strict (0::nat)))) \<and>
      consecutiveFailures (loop_body env_down opts_strict 1 (init_state [''a''] opts_strict 0)) = 0)"
  by (simp add: run_eval env_down_def opts_strict_def)

text \<open>
  Claim C10. When a step fails below the threshold, the Oracle proposes a terminal
  command as recovery and that command runs with status \<open>success\<close>, the pass ends with
  \<open>consecutiveFailures = 0\<close> although the step is not completed: the cursor, the plan and
  the completed steps are unchanged, one failure was recorded and no reassessment was
  counted. The next failure of the step is again below the threshold, so the
  reassessment waits for \<open>maxConsecutiveFailures\<close> further failures.
\<close>

theorem recovery_resets_failure_count:
  assumes "executeStep env (currentSteps s ! currentStepIndex s) (ctx s) (temperature opts) (io s)
             = (result, io1)"
    and "r_success result \<noteq> Some True"
    and "int (Suc (consecutiveFailures s)) < maxConsecutiveFailures opts"
    and "c1 = record_failure (currentSteps s ! currentStepIndex s) it result (ctx s)"
    and "createRecoverySolution env (currentSteps s ! currentStepIndex s) result c1 io1
           = (RecoveryOk solution action, io2)"
    and "choice action = ''terminalCommand''"
    and "call_exec env
           \<lparr>command = terminalCommand action, ac_commandReasoning = Some ''Recovery attempt'',
            ac_requiresApproval = Some False\<rparr> recovery_exec_opts io2 = (Inr recoveryResult, io3)"
    and "status recoveryResult = ''success''"
  shows "consecutiveFailures (loop_body env opts it s) = 0 \<and>
         int (Suc (consecutiveFailures (loop_body env opts it s))) < maxConsecutiveFailures opts \<and>
         currentStepIndex (loop_body env opts it s) = currentStepIndex s \<and>
         currentSteps (loop_body env opts it s) = currentSteps s \<and>
         completedSteps (ctx (loop_body env opts it s)) = completedSteps (ctx s) \<and>
         length (failures (ctx (loop_body env opts it s))) = Suc (length (failures (ctx s))) \<and>
         reassessments (ctx (loop_body env opts it s)) = reassessments (ctx s)"
proof -
  have b: "loop_body env opts it s =
           do_recover env (currentSteps s ! currentStepIndex s) it result
             (Suc (consecutiveFailures s)) c1 io1 s"
    using assms(1-4) by (simp add: loop_body_def on_failure_def Let_def)
  have m: "2 \<le> maxConsecutiveFailures opts" using assms(3) by simp
  show ?thesis
    unfolding b using assms(4-8) m
    by (simp add: do_recover_def Let_def record_failure_def)
qed

theorem recovery_resets_failure_count_witness:
  "consecutiveFailures (loop_body env_recover default_options 1 (init_state [''a''] default_options 0)) = 0 \<and>
   currentStepIndex (loop_body env_recover default_options 1 (init_state [''a''] default_options 0)) = 0 \<and>
   completedSteps (ctx (loop_body env_recover default_options 1 (init_state [''a''] default_options 0))) = [] \<and>
   length (failures (ctx (loop_body env_recover default_options 1 (init_state [''a''] default_options 0)))) = 1 \<and>
   (case fst (executeStepsWithResilience env_recover [''a''] (default_options\<lparr>maxIterations := 7\<rparr>) 0) of
      Inl e \<Rightarrow> False
    | Inr sm \<Rightarrow> sm_failureCount sm = 7 \<and> sm_reassessments sm = 0 \<and> sm_completedSteps sm = [] \<and>
                sm_iterations sm = 7)"
proof -
  let ?s0 = "init_state [''a''] default_options (0::nat)"
  let ?step = "currentSteps ?s0 ! currentStepIndex ?s0"
  let ?x = "executeStep env_recover ?step (ctx ?s0) (temperature default_options) (io ?s0)"
  let ?c1 = "record_failure ?step 1 (fst ?x) (ctx ?s0)"
  let ?r = "createRecoverySolution env_recover ?step (fst ?x) ?c1 (snd ?x)"
  let ?act = "answer_command ''fix''"
  let ?e = "call_exec env_recover
              \<lparr>command = terminalCommand ?act, ac_commandReasoning = Some ''Recovery attempt'',
               ac_requiresApproval = Some False\<rparr> recovery_exec_opts (snd ?r)"
  let ?res = "\<lparr>status = ''success'', stdout = [], stderr = []\<rparr>"
  have h2: "r_success (fst ?x) \<noteq> Some True"
    by (simp add: run_eval env_recover_def)
  have h3: "int (Suc (consecutiveFailures ?s0)) < maxConsecutiveFailures default_options"
    by (simp add: default_options_def init_state_def)
  have h5: "?r = (RecoveryOk ''Retry with modifications'' ?act, snd ?r)"
    by (simp add: run_eval env_recover_def)
  have h6: "choice ?act = ''terminalCommand''"
    by (simp add: answer_command_def)
  have h7: "?e = (Inr ?res, snd ?e)"
    by (simp add: run_eval env_recover_def)
  have h8: "status ?res = ''success''" by simp
  from recovery_resets_failure_count
         [of env_recover ?s0 default_options "fst ?x" "snd ?x" ?c1 1
             "''Retry with modifications''" ?act "snd ?r" ?res "snd ?e",
          OF prod.collapse [symmetric] h2 h3 refl h5 h6 h7 h8]
  have a: "consecutiveFailures (loop_body env_recover default_options 1 ?s0) = 0 \<and>
   currentStepIndex (loop_body env_recover default_options 1 ?s0) = 0 \<and>
   completedSteps (ctx (loop_body env_recover default_options 1 ?s0)) = [] \<and>
   length (failures (ctx (loop_body env_recover default_options 1 ?s0))) = 1"
    by (simp add: init_state_def)
  have b: "case fst (executeStepsWithResilience env_recover [''a''] (default_options\<lparr>maxIterations := 7\<rparr>) 0) of
      Inl e \<Rightarrow> False
    | Inr sm \<Rightarrow> sm_failureCount sm = 7 \<and> sm_reassessments sm = 0 \<and> sm_completedSteps sm = [] \<and>
                sm_iterations sm = 7"
    by (simp add: run_eval env_recover_def)
  from a b show ?thesis by simp
qed

section \<open>Errors that escape the loop\<close>

lemma do_recover_thrown:
  assumes "\<And>c eo w. \<exists>r w'. executeAgentCommand env c eo w = (Inr r, w')" "thrown s = None"
  shows "thrown (do_recover env step it r cf c1 io1 s) = None"
proof -
  have "\<And>c eo io0 msg io3. call_exec env c eo io0 \<noteq> (Inl msg, io3)"
  proof
    fix c eo io0 msg io3
    assume a: "call_exec env c eo io0 = (Inl msg, io3)"
    obtain r w' where "executeAgentCommand env c eo (fst io0) = (Inr r, w')"
      using assms(1) by blast
    with a show False by (simp add: call_exec_def split: prod.splits)
  qed
  then show ?thesis
    using assms(2)
    by (auto simp: do_recover_def Let_def split: prod.splits sum.splits recovery.splits)
qed

lemma loop_body_thrown:
  assumes "\<And>c eo w. \<exists>r w'. executeAgentCommand env c eo w = (Inr r, w')" "thrown s = None"
  shows "thrown (loop_body env opts it s) = None"
  using assms(2) do_recover_thrown [OF assms(1)]
  by (simp add: loop_body_def on_success_def on_failure_def do_reassess_def Let_def
           split: prod.splits)

lemma exec_loop_thrown:
  "\<forall>c eo w. \<exists>r w'. executeAgentCommand env c eo w = (Inr r, w') \<Longrightarrow>
   thrown s = None \<Longrightarrow> thrown (snd (exec_loop env opts it s)) = None"
proof (induction env opts it s rule: exec_loop.induct)
  case (1 env opts iteration s)
  have e: "\<And>c eo w. \<exists>r w'. executeAgentCommand env c eo w = (Inr r, w')"
    using 1(2) by blast
  show ?case
  proof (cases "running opts iteration s")
    case True
    from 1(1) [OF True 1(2) loop_body_thrown [OF e 1(3)]]
    show ?thesis unfolding exec_loop_step [OF True] .
  next
    case False
    show ?thesis unfolding exec_loop_stop [OF False] using 1(3) by simp
  qed
qed

text \<open>
  What holds of the non-failing loop: when the executor never rejects and no
  verification is asked for, a summary is returned, whatever the Oracle does.
\<close>

lemma summary_when_executor_answers:
  assumes "\<And>c eo w. \<exists>r w'. executeAgentCommand env c eo w = (Inr r, w')" "\<not> verify opts"
  shows "\<exists>sm io1. executeStepsWithResilience env steps opts w = (Inr sm, io1)"
proof -
  obtain it s where r: "exec_loop env opts 0 (init_state steps opts w) = (it, s)"
    by (cases "exec_loop env opts 0 (init_state steps opts w)")
  have "thrown (init_state steps opts w) = None" by (simp add: init_state_def)
  moreover have "\<forall>c eo w. \<exists>r w'. executeAgentCommand env c eo w = (Inr r, w')"
    using assms(1) by blast
  ultimately have "thrown (snd (exec_loop env opts 0 (init_state steps opts w))) = None"
    by (simp add: exec_loop_thrown)
  with r have "thrown s = None" by simp
  then show ?thesis
    using assms(2) r by (simp add: executeStepsWithResilience_def finish_def)
qed

text \<open>
  Claim C7 says that no failure of the Oracle or of a command makes the loop throw and
  that a complete summary is returned in every case. The commands of the steps are run
  inside the \<open>try\<close> block of \<open>executeStep\<close>; the command of a recovery attempt is run by
  the loop itself, outside any \<open>try\<close> block. At the input below the only step is
  rejected by the Oracle, the Oracle proposes a recovery command, and the executor
  rejects it: the run ends with that error and returns no summary.
\<close>

theorem recovery_command_rejection_escapes:
  "fst (executeStepsWithResilience env_spawn_fails [''deploy''] default_options 0)
     = Inl ''spawn failed''"
  by (simp add: run_eval env_spawn_fails_def)

text \<open>
  A second way out of the loop without a summary: with \<open>verify\<close> set, a completed step
  whose result is \<open>undefined\<close> (here, generated code that is empty) makes the default
  verification prompt raise a TypeError before the \<open>try\<close> block of the verification.
\<close>

lemma verification_prompt_type_error:
  "fst (executeStepsWithResilience env_empty_code [''write it'']
          (default_options\<lparr>verify := True\<rparr>) 0)
     = Inl ''TypeError: Cannot read properties of undefined''"
  by (simp add: run_eval env_empty_code_def verifyRequestFulfillment_def
        default_verification_prompt_def completed_block_def enumerate_eq_zip)

section \<open>The round trip of the SecretVault\<close>

lemmas vault_eval =
  redact_def redact_with_def detectors_def after_label_def long_hex_def isHex_def
  token_for_def fresh_number_def placeholder_def parse_placeholder_def isTypeChar_def
  isDigit_def isSpace_def show_nat.simps digit_char_def Let_def

text \<open>
  The documented example, and a text in which \<open>{{PASSWORD_1}}\<close> is written literally:
  the literal stays, the passwords get the next numbers, and the value that occurs twice
  gets one token.
\<close>

lemma redact_documented_example:
  "redact ''Connect with password: SuperSecret123!'' =
     (''Connect with password: {{PASSWORD_1}}'', [(''{{PASSWORD_1}}'', ''SuperSecret123!'')])"
  by (simp add: vault_eval)

lemma redact_beside_literal:
  "redact ''say {{PASSWORD_1}} with password: abc and password: xyz or password: abc'' =
     (''say {{PASSWORD_1}} with password: {{PASSWORD_2}} and password: {{PASSWORD_3}} or password: {{PASSWORD_2}}'',
      [(''{{PASSWORD_2}}'', ''abc''), (''{{PASSWORD_3}}'', ''xyz'')])"
  by (simp add: vault_eval)

lemma substitute_unknown_token:
  "substitute ''echo {{PASSWORD_1}} {{KEY_2}}'' [(''{{PASSWORD_1}}'', ''SuperSecret123!'')] =
     (''echo SuperSecret123! {{KEY_2}}'', 1)"
  by (simp add: vault_eval)

subsection \<open>Decimal numerals\<close>

lemma below_ten: "k < 10 \<Longrightarrow> k \<in> {0, 1, 2, 3, 4, 5, 6, 7, 8, 9::nat}"
  by auto

lemma digit_char_isDigit: "isDigit (digit_char d)"
proof -
  have "d mod 10 < 10" by simp
  from below_ten [OF this] show ?thesis
    by (auto simp: digit_char_def isDigit_def)
qed

lemma digit_char_inj:
  assumes "digit_char a = digit_char b"
  shows "a mod 10 = b mod 10"
proof -
  have a: "a mod 10 < 10" and b: "b mod 10 < 10" by simp_all
  from below_ten [OF a] below_ten [OF b] assms show ?thesis
    unfolding digit_char_def by (elim insertE emptyE) simp_all
qed

lemma show_nat_nonempty: "show_nat n \<noteq> []"
  by (subst show_nat.simps) simp

lemma show_nat_digits: "c \<in> set (show_nat n) \<Longrightarrow> isDigit c"
proof (induction n rule: show_nat.induct)
  case (1 n)
  then show ?case
    by (subst (asm) (2) show_nat.simps) (auto simp: digit_char_isDigit split: if_splits)
qed

lemma show_nat_last: "last (show_nat n) = digit_char n"
proof -
  have "digit_char (n mod 10) = digit_char n" by (simp add: digit_char_def)
  then show ?thesis by (subst show_nat.simps) (simp add: digit_char_def)
qed

lemma show_nat_butlast: "butlast (show_nat n) = (if n < 10 then [] else show_nat (n div 10))"
  by (subst show_nat.simps) simp

lemma show_nat_inj: "show_nat a = show_nat b \<Longrightarrow> a = b"
proof (induction a arbitrary: b rule: show_nat.induct)
  case (1 a)
  from 1(2) have l: "digit_char a = digit_char b"
    using show_nat_last [of a] show_nat_last [of b] by simp
  then have m: "a mod 10 = b mod 10" by (rule digit_char_inj)
  from 1(2) have bl: "butlast (show_nat a) = butlast (show_nat b)" by simp
  show ?case
  proof (cases "a < 10")
    case True
    with bl have "b < 10"
      using show_nat_nonempty [of "b div 10"]
      by (auto simp: show_nat_butlast split: if_splits)
    with True m show ?thesis by simp
  next
    case False
    with bl have b: "\<not> b < 10" and e: "show_nat (a div 10) = show_nat (b div 10)"
      using show_nat_nonempty [of "a div 10"]
      by (auto simp: show_nat_butlast split: if_splits)
    from 1(1) [OF False e] have "a div 10 = b div 10" .
    with m show ?thesis by (metis div_mult_mod_eq)
  qed
qed

lemma placeholder_inj: "placeholder kd a = placeholder kd b \<Longrightarrow> a = b"
  by (rule show_nat_inj) (simp add: placeholder_def)


subsection \<open>Placeholders\<close>

lemma kind_name_chars: "c \<in> set (kind_name kd) \<Longrightarrow> isTypeChar c"
  by (cases kd) (auto simp: isTypeChar_def)

lemma kind_name_nonempty: "kind_name kd \<noteq> []"
  by (cases kd) auto

lemma digit_not_type: "isDigit c \<Longrightarrow> \<not> isTypeChar c"
  by (auto simp: isDigit_def isTypeChar_def)

lemma digit_not_brace: "isDigit c \<Longrightarrow> c \<noteq> CHR ''{''"
  by (auto simp: isDigit_def)

lemma type_not_brace: "isTypeChar c \<Longrightarrow> c \<noteq> CHR ''{''"
  by (auto simp: isTypeChar_def)

lemma starts_with_length: "starts_with p s \<Longrightarrow> length p \<le> length s"
  by (induction p s rule: starts_with.induct) auto

lemma parse_placeholder_token:
  "parse_placeholder (placeholder kd n @ rest) = Some (length (placeholder kd n))"
proof -
  obtain d ds where sn: "show_nat n = d # ds"
    using show_nat_nonempty [of n] by (cases "show_nat n") auto
  have d: "isDigit d" and ds: "\<forall>c\<in>set (show_nat n). isDigit c"
    using show_nat_digits [of _ n] sn by auto
  have nm: "takeWhile isTypeChar (kind_name kd @ CHR ''_'' # show_nat n @ CHR ''}'' # CHR ''}'' # rest)
              = kind_name kd @ ''_''"
  proof -
    have "takeWhile isTypeChar (kind_name kd @ CHR ''_'' # show_nat n @ CHR ''}'' # CHR ''}'' # rest)
            = kind_name kd @ takeWhile isTypeChar (CHR ''_'' # show_nat n @ CHR ''}'' # CHR ''}'' # rest)"
      by (rule takeWhile_append2) (rule kind_name_chars)
    moreover have "isTypeChar CHR ''_''" by (simp add: isTypeChar_def)
    ultimately show ?thesis using digit_not_type [OF d] by (simp add: sn)
  qed
  have dg: "takeWhile isDigit (show_nat n @ CHR ''}'' # CHR ''}'' # rest) = show_nat n"
  proof -
    have "takeWhile isDigit (show_nat n @ CHR ''}'' # CHR ''}'' # rest)
            = show_nat n @ takeWhile isDigit (CHR ''}'' # CHR ''}'' # rest)"
      by (rule takeWhile_append2) (rule show_nat_digits)
    then show ?thesis by (simp add: isDigit_def)
  qed
  have kn: "Suc 0 \<le> length (kind_name kd)"
    using kind_name_nonempty [of kd] by (cases "kind_name kd") auto
  show ?thesis
    unfolding parse_placeholder_def placeholder_def
    by (simp add: nm dg kn Let_def show_nat_nonempty)
qed

lemma parse_placeholder_length: "parse_placeholder s = Some w \<Longrightarrow> w \<le> length s"
proof -
  assume a: "parse_placeholder s = Some w"
  let ?name = "takeWhile isTypeChar (drop 2 s)"
  let ?digits = "takeWhile isDigit (drop (2 + length ?name) s)"
  from a have w: "w = length ?name + length ?digits + 4"
    and e: "starts_with ''}}'' (drop (2 + length ?name + length ?digits) s)"
    by (auto simp: parse_placeholder_def Let_def split: if_splits)
  from starts_with_length [OF e] show ?thesis unfolding w by simp
qed

lemma placeholder_shape:
  "\<exists>q. placeholder kd n = CHR ''{'' # CHR ''{'' # q \<and> q \<noteq> [] \<and> CHR ''{'' \<notin> set q"
proof -
  have "CHR ''{'' \<notin> set (kind_name kd @ ''_'' @ show_nat n @ ''}}'')"
    using kind_name_chars [of "CHR ''{''" kd] show_nat_digits [of "CHR ''{''" n]
    by (auto dest: type_not_brace digit_not_brace)
  then show ?thesis by (simp add: placeholder_def)
qed

lemma literal_tokens_length: "length (literal_tokens T) \<le> length T"
  by (induction T) (auto split: option.splits)

lemma literal_tokens_here:
  "parse_placeholder (p @ X) = Some (length p) \<Longrightarrow> p \<noteq> [] \<Longrightarrow> p \<in> set (literal_tokens (p @ X))"
  by (cases p) auto

lemma literal_tokens_later: "p \<in> set (literal_tokens s) \<Longrightarrow> p \<in> set (literal_tokens (A @ s))"
  by (induction A) (auto split: option.splits)

lemma placeholder_literal: "placeholder kd n \<in> set (literal_tokens (A @ placeholder kd n @ X))"
proof -
  have "placeholder kd n \<noteq> []" by (simp add: placeholder_def)
  from literal_tokens_here [OF parse_placeholder_token this]
  show ?thesis by (rule literal_tokens_later)
qed

lemma fresh_number_fresh:
  "placeholder kd (fresh_number T m kd) \<notin> set (literal_tokens T) \<union> fst ` set m"
proof (cases "find (\<lambda>n. placeholder kd n \<notin> set (literal_tokens T @ map fst m))
                [1 ..< length (literal_tokens T @ map fst m) + 2]")
  case (Some n)
  then have "placeholder kd n \<notin> set (literal_tokens T @ map fst m)"
    by (auto simp: find_Some_iff)
  moreover have "fresh_number T m kd = n"
    by (simp only: fresh_number_def Let_def Some option.case)
  ultimately show ?thesis by simp
next
  case None
  let ?taken = "literal_tokens T @ map fst m"
  let ?L = "[1 ..< length ?taken + 2]"
  from None have "\<not> (\<exists>n. n \<in> set ?L \<and> placeholder kd n \<notin> set ?taken)"
    unfolding find_None_iff .
  then have "placeholder kd ` set ?L \<subseteq> set ?taken" by blast
  then have "card (placeholder kd ` set ?L) \<le> card (set ?taken)"
    by (intro card_mono) auto
  moreover have "inj_on (placeholder kd) (set ?L)"
    by (rule inj_onI) (rule placeholder_inj)
  then have "card (placeholder kd ` set ?L) = card (set ?L)"
    by (rule card_image)
  moreover have "card (set ?L) = length ?L"
    by (rule distinct_card) (rule distinct_upt)
  moreover have "length ?L = length ?taken + 1"
    by (simp only: length_upt)
  moreover have "card (set ?taken) \<le> length ?taken" by (rule card_length)
  ultimately show ?thesis by simp
qed


subsection \<open>Scanning a safe text\<close>

lemma no_key_in_plain:
  assumes clean: "keys_clean T M"
    and R: "R = [] \<or> (\<exists>R'. R = CHR ''{'' # CHR ''{'' # R')"
    and T: "T = A @ (c # P) @ S"
    and parse: "parse_placeholder (c # P @ R) = Some w"
  shows "map_of M (take w (c # P @ R)) = None"
proof (rule ccontr)
  assume "map_of M (take w (c # P @ R)) \<noteq> None"
  then obtain v where "map_of M (take w (c # P @ R)) = Some v" by auto
  then have "take w (c # P @ R) \<in> fst ` set M"
    by (auto dest!: map_of_SomeD intro: rev_image_eqI)
  with clean obtain kd n where p: "take w (c # P @ R) = placeholder kd n"
    and lit: "placeholder kd n \<notin> set (literal_tokens T)"
    by (auto simp: keys_clean_def)
  from placeholder_shape [of kd n] obtain q
    where q: "placeholder kd n = CHR ''{'' # CHR ''{'' # q" "q \<noteq> []" "CHR ''{'' \<notin> set q"
    by blast
  from parse_placeholder_length [OF parse] have w: "w \<le> length (c # P @ R)" .
  show False
  proof (cases "w \<le> length (c # P)")
    case True
    have "take w ((c # P) @ R) = take w (c # P)"
      by (simp only: take_append) (use True in simp)
    with p have "take w (c # P) = placeholder kd n" by simp
    then have "c # P = placeholder kd n @ drop w (c # P)"
      using append_take_drop_id [of w "c # P"] by simp
    then have "T = A @ placeholder kd n @ (drop w (c # P) @ S)"
      using T by (metis append.assoc)
    with placeholder_literal [of kd n A "drop w (c # P) @ S"] lit show False by simp
  next
    case False
    define k where "k = w - length (c # P)"
    from False have k: "0 < k" by (simp add: k_def)
    from False w have "R \<noteq> []" by auto
    with R obtain R' where R': "R = CHR ''{'' # CHR ''{'' # R'" by auto
    have t1: "take w ((c # P) @ R) = (c # P) @ take k R"
      by (simp only: take_append k_def) (use False in simp)
    have t2: "take k R = CHR ''{'' # take (k - 1) (CHR ''{'' # R')"
      using k by (cases k) (simp_all add: R')
    from p have p': "take w ((c # P) @ R) = placeholder kd n" by simp
    from p' [symmetric] t1
    have "placeholder kd n = (c # P) @ take k R" by (rule trans)
    then have e: "CHR ''{'' # CHR ''{'' # q = (c # P) @ CHR ''{'' # take (k - 1) (CHR ''{'' # R')"
      unfolding q(1) t2 .
    show False
    proof (cases P)
      case Nil
      with e have "q = take (k - 1) (CHR ''{'' # R')" by simp
      with q(2) q(3) show False by (cases "k - 1") auto
    next
      case (Cons d P')
      with e have "q = P' @ CHR ''{'' # take (k - 1) (CHR ''{'' # R')" by simp
      with q(3) show False by simp
    qed
  qed
qed

lemma scan_plain:
  assumes clean: "keys_clean T M"
    and R: "R = [] \<or> (\<exists>R'. R = CHR ''{'' # CHR ''{'' # R')"
  shows "T = A @ P @ S \<Longrightarrow> fst (substitute (P @ R) M) = P @ fst (substitute R M)"
proof (induction P arbitrary: A)
  case Nil
  show ?case by simp
next
  case (Cons c P)
  from Cons.prems have "T = (A @ [c]) @ P @ S" by simp
  from Cons.IH [OF this] have IH: "fst (substitute (P @ R) M) = P @ fst (substitute R M)" .
  have "fst (substitute (c # P @ R) M) = c # fst (substitute (P @ R) M)"
    using no_key_in_plain [OF clean R Cons.prems]
    by (auto split: option.splits prod.splits)
  with IH show ?case by simp
qed

lemma scan_token:
  assumes "map_of M (placeholder kd n) = Some v"
  shows "fst (substitute (placeholder kd n @ r) M) = v @ fst (substitute r M)"
proof -
  from placeholder_shape [of kd n] obtain q where q: "placeholder kd n = CHR ''{'' # CHR ''{'' # q"
    by blast
  have p: "parse_placeholder (CHR ''{'' # CHR ''{'' # q @ r) = Some (Suc (Suc (length q)))"
    using parse_placeholder_token [of kd n r] by (simp add: q)
  have t: "map_of M (CHR ''{'' # CHR ''{'' # q) = Some v"
    using assms by (simp add: q)
  show ?thesis
    unfolding q by (simp add: p t split: prod.splits)
qed


subsection \<open>Redaction\<close>

lemma first_match_valid:
  "first_match ds s = Some (kd, k, n) \<Longrightarrow> 0 < n \<and> k + n \<le> length s"
  by (induction ds) (auto split: option.splits if_splits)

lemma token_for_sound:
  assumes inv: "vault_inv T m" and tf: "token_for T m kd v = (tok, m1)"
  shows "vault_inv T m1 \<and> set m \<subseteq> set m1 \<and> (tok, v) \<in> set m1 \<and>
         (\<exists>kd' n. tok = placeholder kd' n)"
proof (cases "find (\<lambda>e. snd e = v) m")
  case (Some e)
  with tf have e: "tok = fst e" "m1 = m" by (simp_all add: token_for_def)
  from Some have "e \<in> set m" "snd e = v"
    by (auto simp: find_Some_iff)
  then have "(tok, v) \<in> set m" unfolding e(1) by (metis prod.collapse)
  moreover from this inv have "\<exists>kd' n. tok = placeholder kd' n"
    by (force simp: vault_inv_def keys_clean_def)
  ultimately show ?thesis using inv by (simp add: e(2))
next
  case None
  let ?p = "placeholder kd (fresh_number T m kd)"
  from None tf have e: "tok = ?p" "m1 = m @ [(?p, v)]" by (auto simp: token_for_def)
  from fresh_number_fresh [of kd T m]
  have f: "?p \<notin> set (literal_tokens T)" "?p \<notin> fst ` set m" by auto
  have "vault_inv T m1"
    using inv f by (auto simp: vault_inv_def keys_clean_def e(2))
  then show ?thesis by (auto simp: e)
qed

lemma redact_from_sound:
  "vault_inv T m \<Longrightarrow> redact_from ds T m s = (r, m2) \<Longrightarrow>
   vault_inv T m2 \<and> set m \<subseteq> set m2 \<and>
   (\<forall>M A P. vault_inv T M \<longrightarrow> set m2 \<subseteq> set M \<longrightarrow> T = A @ P @ s \<longrightarrow>
      fst (substitute (P @ r) M) = P @ s)"
proof (induction ds T m s arbitrary: r m2 rule: redact_from.induct)
  case (1 ds T m)
  then have e: "r = []" "m2 = m" by simp_all
  have "fst (substitute (P @ []) M) = P @ []"
    if "vault_inv T M" "T = A @ P @ []" for M A P
  proof -
    have "fst (substitute (P @ []) M) = P @ fst (substitute [] M)"
      using that by (intro scan_plain [where A = A and S = "[]"]) (simp_all add: vault_inv_def)
    then show ?thesis by simp
  qed
  with "1.prems"(1) show ?case unfolding e by blast
next
  case (2 ds T m c s)
  show ?case
  proof (cases "first_match ds (c # s)")
    case None
    obtain r' m' where rf: "redact_from ds T m s = (r', m')"
      by (cases "redact_from ds T m s")
    with None "2.prems"(2) have e: "r = c # r'" "m2 = m'" by simp_all
    note IH = "2.IH"(1) [OF None "2.prems"(1) rf]
    have "fst (substitute (P @ c # r') M) = P @ c # s"
      if "vault_inv T M" "set m' \<subseteq> set M" "T = A @ P @ c # s" for M A P
    proof -
      from that(3) have "T = A @ (P @ [c]) @ s" by simp
      with IH that(1,2) have "fst (substitute ((P @ [c]) @ r') M) = (P @ [c]) @ s" by blast
      then show ?thesis by simp
    qed
    with IH show ?thesis unfolding e by blast
  next
    case (Some x)
    obtain kd k n where x: "x = (kd, k, n)" by (cases x)
    note fm = Some [unfolded x]
    from first_match_valid [OF fm] have n: "0 < n" and kn: "k + n \<le> length (c # s)" by simp_all
    let ?v = "take n (drop k (c # s))"
    obtain tok m1 where tf: "token_for T m kd ?v = (tok, m1)"
      by (cases "token_for T m kd ?v")
    obtain r' m' where rf: "redact_from ds T m1 (drop (k + n - 1) s) = (r', m')"
      by (cases "redact_from ds T m1 (drop (k + n - 1) s)")
    from fm tf rf "2.prems"(2) have e: "r = take k (c # s) @ tok @ r'" "m2 = m'" by simp_all
    from token_for_sound [OF "2.prems"(1) tf]
    have inv1: "vault_inv T m1" and sub1: "set m \<subseteq> set m1" and mem: "(tok, ?v) \<in> set m1"
      and tok: "\<exists>kd' n. tok = placeholder kd' n" by simp_all
    note IH = "2.IH"(2) [OF fm refl refl tf [symmetric] inv1 rf]
    from tok obtain kd' n' where tok': "tok = placeholder kd' n'" by blast
    from placeholder_shape [of kd' n'] obtain q where q: "tok = CHR ''{'' # CHR ''{'' # q"
      unfolding tok' by blast
    have rest: "drop (k + n - 1) s = drop (k + n) (c # s)"
      using n by (cases "k + n") simp_all
    then have rest': "drop (k + n - Suc 0) s = drop (k + n) (c # s)" by simp
    have split: "c # s = take k (c # s) @ ?v @ drop (k + n) (c # s)"
      by (metis add.commute append_take_drop_id drop_drop)
    have "fst (substitute (P @ take k (c # s) @ tok @ r') M) = P @ c # s"
      if M: "vault_inv T M" "set m' \<subseteq> set M" and T: "T = A @ P @ c # s" for M A P
    proof -
      from T split have T1: "T = A @ (P @ take k (c # s)) @ (?v @ drop (k + n) (c # s))"
        by (metis append.assoc)
      have "fst (substitute ((P @ take k (c # s)) @ (tok @ r')) M)
              = (P @ take k (c # s)) @ fst (substitute (tok @ r') M)"
        using M(1) by (intro scan_plain [OF _ _ T1]) (simp_all add: vault_inv_def q)
      moreover have "map_of M tok = Some ?v"
        using mem IH M by (auto simp: vault_inv_def)
      then have "fst (substitute (tok @ r') M) = ?v @ fst (substitute r' M)"
        unfolding tok' by (rule scan_token)
      moreover have "fst (substitute ([] @ r') M) = [] @ drop (k + n - 1) s"
      proof -
        from T1 have "T = (A @ P @ take k (c # s) @ ?v) @ [] @ drop (k + n - 1) s"
          unfolding rest by simp
        with IH M show ?thesis by blast
      qed
      ultimately have "fst (substitute (P @ take k (c # s) @ tok @ r') M)
              = P @ take k (c # s) @ ?v @ drop (k + n) (c # s)"
        by (simp add: rest')
      with split show ?thesis by simp
    qed
    with IH sub1 show ?thesis unfolding e by blast
  qed
qed

text \<open>
  Claim C2. For every text \<open>T\<close>, \<open>substitute\<close> applied to the safe text and the
  mapping that \<open>redact\<close> returns for \<open>T\<close> gives exactly \<open>T\<close>: with the detectors of
  the vault and with any other ordered list of detectors, whatever they match, and also
  for a text in which a literal already looks like a placeholder.
\<close>

theorem redact_substitute_roundtrip:
  "fst (substitute (fst (redact T)) (snd (redact T))) = T \<and>
   fst (substitute (fst (redact_with ds T)) (snd (redact_with ds T))) = T"
proof -
  have "fst (substitute (fst (redact_with ds' T)) (snd (redact_with ds' T))) = T" for ds'
  proof -
    obtain r m where rf: "redact_from ds' T [] T = (r, m)" by (cases "redact_from ds' T [] T")
    have "vault_inv T []" by (simp add: vault_inv_def keys_clean_def)
    from redact_from_sound [OF this rf]
    have "vault_inv T m" and
      "\<And>M A P. vault_inv T M \<Longrightarrow> set m \<subseteq> set M \<Longrightarrow> T = A @ P @ T \<Longrightarrow>
         fst (substitute (P @ r) M) = P @ T"
      by blast+
    from this(2) [OF this(1), of "[]" "[]"] show ?thesis
      by (simp add: redact_with_def rf)
  qed
  then show ?thesis by (simp add: redact_def)
qed

section \<open>Blocked commands stay blocked\<close>

lemma find_Some_ex: "find P xs = Some x \<Longrightarrow> list_ex P xs"
  by (induction xs) (auto split: if_splits)

lemma find_None_ex: "find P xs = None \<Longrightarrow> \<not> list_ex P xs"
  by (induction xs) (auto split: if_splits)

lemma classify_blocked_iff:
  "(classification (classify rules needs_approval flags cmd) = Blocked)
     = list_ex (\<lambda>r. rule_matches r cmd) rules"
proof (cases "find (\<lambda>r. rule_matches r cmd) rules")
  case None
  from find_None_ex [OF this] None show ?thesis by (simp add: classify_def)
next
  case (Some r)
  from find_Some_ex [OF this] Some show ?thesis by (simp add: classify_def)
qed

text \<open>
  Claim C3. A command that matches a rule of the destructive patterns is classified
  \<open>blocked\<close> under every setting of the \<open>autoApprove\<close> and \<open>allowDangerous\<close> flags, as
  \<open>rm -rf /\<close> is; whether a command is blocked does not depend on the flags at all,
  and a command that is not blocked is classified \<open>requires-approval\<close> or
  \<open>auto-approved\<close>, which is all the flags can change.
\<close>

theorem blocked_dominates_flags:
  "(list_ex (\<lambda>r. rule_matches r cmd) rules \<longrightarrow>
      classification (classify rules needs_approval flags cmd) = Blocked) \<and>
   ((classification (classify rules needs_approval flags cmd) = Blocked)
      = (classification (classify rules needs_approval flags' cmd) = Blocked)) \<and>
   (classification (classify rules needs_approval flags cmd) \<noteq> Blocked \<longrightarrow>
      classification (classify rules needs_approval flags cmd) \<in> {RequiresApproval, AutoApproved}
      \<and> matchedRule (classify rules needs_approval flags cmd) = None) \<and>
   classification (classify destructive_rules needs_approval flags ''rm -rf /'') = Blocked"
proof -
  have "list_ex (\<lambda>r. rule_matches r ''rm -rf /'') destructive_rules"
    by (simp add: destructive_rules_def root_deletion_def spaces_then_def isSpace_def)
  then have "classification (classify destructive_rules needs_approval flags ''rm -rf /'') = Blocked"
    by (simp only: classify_blocked_iff)
  moreover have "classification (classify rules needs_approval flags cmd) \<noteq> Blocked \<longrightarrow>
      classification (classify rules needs_approval flags cmd) \<in> {RequiresApproval, AutoApproved}
      \<and> matchedRule (classify rules needs_approval flags cmd) = None"
    by (simp add: classify_def split: option.splits)
  ultimately show ?thesis by (simp add: classify_blocked_iff)
qed

theorem blocked_dominates_flags_witness:
  "list_ex (\<lambda>r. rule_matches r ''sudo rm  -rf / --no-preserve-root'') destructive_rules \<and>
   classification (classify destructive_rules (\<lambda>c. True)
      \<lparr>pf_autoApprove = True, pf_allowDangerous = True\<rparr> ''sudo rm  -rf / --no-preserve-root'')
     = Blocked \<and>
   classification (classify destructive_rules (\<lambda>c. True)
      \<lparr>pf_autoApprove = False, pf_allowDangerous = False\<rparr> ''ls -la'') = RequiresApproval \<and>
   classification (classify destructive_rules (\<lambda>c. True)
      \<lparr>pf_autoApprove = True, pf_allowDangerous = False\<rparr> ''ls -la'') = AutoApproved"
proof -
  have m: "list_ex (\<lambda>r. rule_matches r ''sudo rm  -rf / --no-preserve-root'') destructive_rules"
    by (simp add: destructive_rules_def root_deletion_def spaces_then_def isSpace_def)
  have n: "\<not> list_ex (\<lambda>r. rule_matches r ''ls -la'') destructive_rules"
    by (simp add: destructive_rules_def root_deletion_def fork_bomb_def pipe_to_interpreter_def
          spaces_then_def isSpace_def)
  have f: "find (\<lambda>r. rule_matches r ''ls -la'') destructive_rules = None"
  proof (cases "find (\<lambda>r. rule_matches r ''ls -la'') destructive_rules")
    case None
    then show ?thesis .
  next
    case (Some r)
    from find_Some_ex [OF this] n show ?thesis by simp
  qed
  note t = blocked_dominates_flags
    [of _ destructive_rules "\<lambda>c. True" _ "\<lparr>pf_autoApprove = True, pf_allowDangerous = True\<rparr>"]
  from t [of "''sudo rm  -rf / --no-preserve-root''" "\<lparr>pf_autoApprove = True, pf_allowDangerous = True\<rparr>"] m
  have a: "classification (classify destructive_rules (\<lambda>c. True)
      \<lparr>pf_autoApprove = True, pf_allowDangerous = True\<rparr> ''sudo rm  -rf / --no-preserve-root'')
     = Blocked" by blast
  have b: "classification (classify destructive_rules (\<lambda>c. True)
      \<lparr>pf_autoApprove = False, pf_allowDangerous = False\<rparr> ''ls -la'') = RequiresApproval"
    by (simp add: classify_def f)
  have c: "classification (classify destructive_rules (\<lambda>c. True)
      \<lparr>pf_autoApprove = True, pf_allowDangerous = False\<rparr> ''ls -la'') = AutoApproved"
    by (simp add: classify_def f)
  from m a b c show ?thesis by simp
qed

section \<open>What the loop sends to the Oracle and to the executor\<close>

lemma sublist_prepend: "sublist xs ys \<Longrightarrow> sublist xs (zs @ ys)"
  by (metis append.assoc sublist_def)

lemma sublist_join_lines: "l \<in> set ls \<Longrightarrow> sublist l (join_lines ls)"
proof (induction ls rule: join_lines.induct)
  case 1
  then show ?case by simp
next
  case (2 l')
  then show ?case by simp
next
  case (3 l' m ls)
  show ?case
  proof (cases "l = l'")
    case True
    then show ?thesis by simp
  next
    case False
    with 3 have "sublist l (join_lines (m # ls))" by simp
    then have "sublist l ((l' @ nl) @ join_lines (m # ls))" by (rule sublist_prepend)
    then show ?thesis by simp
  qed
qed

lemma sublist_through: "sublist xs ys \<Longrightarrow> sublist ys zs \<Longrightarrow> sublist xs zs"
proof -
  assume "sublist xs ys" "sublist ys zs"
  then obtain p q p' q' where "ys = p @ xs @ q" "zs = p' @ ys @ q'"
    by (auto simp: sublist_def)
  then have "zs = (p' @ p) @ xs @ (q @ q')" by simp
  then show ?thesis unfolding sublist_def by blast
qed

lemma sublist_in_line:
  assumes "sublist x l" "l \<in> set ls"
  shows "sublist x (join_lines ls)"
  using sublist_through [OF assms(1) sublist_join_lines [OF assms(2)]] .

lemma step_in_step_query: "sublist step (step_query env step c)"
proof -
  have "sublist step (nl @ ''Current step to execute: '' @ step)"
    by (rule sublist_prepend) (rule sublist_append_leftI)
  then show ?thesis
    unfolding step_query_def by (rule sublist_in_line) simp
qed

lemma step_in_recovery_prompt: "sublist step (recovery_prompt env step r c)"
proof -
  have "sublist step (''Failed Step: '' @ step)"
    by (rule sublist_append_leftI)
  then show ?thesis
    unfolding recovery_prompt_def by (rule sublist_in_line) simp
qed

lemma step_in_numbered: "s \<in> set steps \<Longrightarrow> sublist s (join_lines (numbered_steps steps))"
proof -
  assume "s \<in> set steps"
  then obtain i where "i < length steps" "steps ! i = s" by (auto simp: in_set_conv_nth)
  then have "(i, s) \<in> set (enumerate 0 steps)" by (simp add: in_set_enumerate_eq)
  then have m: "show_nat (i + 1) @ ''. '' @ s \<in> set (numbered_steps steps)"
    unfolding numbered_steps_def by force
  have "sublist s (show_nat (i + 1) @ ''. '' @ s)"
    by (rule sublist_prepend) (rule sublist_append_leftI)
  then show ?thesis using m by (rule sublist_in_line)
qed

lemma step_in_reassess_prompt:
  "s \<in> set steps \<Longrightarrow> sublist s (reassess_prompt steps c)"
proof -
  assume "s \<in> set steps"
  then have "sublist s (join_lines (numbered_steps steps))" by (rule step_in_numbered)
  then show ?thesis
    unfolding reassess_prompt_def by (rule sublist_in_line) simp
qed

text \<open>
  Claim C1, as the loop implements it. The loop has no redaction and no substitution of
  its own. The text that \<open>executeStep\<close> sends to the Oracle is the prompt built from the
  step as it was given, and holds that step verbatim; so do the recovery prompt and, for
  every remaining step, the reassessment prompt. When the Oracle's action is a terminal
  command, the command that reaches the executor is the Oracle's \<open>terminalCommand\<close>,
  unchanged.
\<close>

theorem loop_passes_texts_unchanged:
  "snd (snd (executeStep env step c t io0)) =
     snd io0 @
     OracleCall (step_query env step c) \<lparr>q_temperature = t, q_context = globalContext c\<rparr> #
     (case fst (queryOpenAI env (step_query env step c)
                  \<lparr>q_temperature = t, q_context = globalContext c\<rparr> (fst io0)) of
        Inl msg \<Rightarrow> []
      | Inr resp \<Rightarrow>
          if choice resp = ''terminalCommand''
          then [ExecCall \<lparr>command = terminalCommand resp,
                           ac_commandReasoning = commandReasoning resp,
                           ac_requiresApproval = requiresApproval resp\<rparr> step_exec_opts]
          else []) \<and>
   sublist step (step_query env step c) \<and>
   snd (snd (createRecoverySolution env step r c io0)) =
     snd io0 @ [OracleCall (recovery_prompt env step r c)
                  \<lparr>q_temperature = 7 / 10, q_context = globalContext c\<rparr>] \<and>
   sublist step (recovery_prompt env step r c) \<and>
   snd (snd (reassessPlan env steps c io0)) =
     snd io0 @ [OracleCall (reassess_prompt steps c)
                  \<lparr>q_temperature = 8 / 10, q_context = globalContext c\<rparr>] \<and>
   list_all (\<lambda>s. sublist s (reassess_prompt steps c)) steps"
proof -
  have a: "snd (snd (executeStep env step c t io0)) =
     snd io0 @
     OracleCall (step_query env step c) \<lparr>q_temperature = t, q_context = globalContext c\<rparr> #
     (case fst (queryOpenAI env (step_query env step c)
                  \<lparr>q_temperature = t, q_context = globalContext c\<rparr> (fst io0)) of
        Inl msg \<Rightarrow> []
      | Inr resp \<Rightarrow>
          if choice resp = ''terminalCommand''
          then [ExecCall \<lparr>command = terminalCommand resp,
                           ac_commandReasoning = commandReasoning resp,
                           ac_requiresApproval = requiresApproval resp\<rparr> step_exec_opts]
          else [])"
    by (cases io0)
       (auto simp: executeStep_def call_oracle_def call_exec_def split: prod.splits sum.splits)
  have b: "snd (snd (createRecoverySolution env step r c io0)) =
     snd io0 @ [OracleCall (recovery_prompt env step r c)
                  \<lparr>q_temperature = 7 / 10, q_context = globalContext c\<rparr>]"
    by (cases io0)
       (auto simp: createRecoverySolution_def call_oracle_def split: prod.splits sum.splits)
  have d: "snd (snd (reassessPlan env steps c io0)) =
     snd io0 @ [OracleCall (reassess_prompt steps c)
                  \<lparr>q_temperature = 8 / 10, q_context = globalContext c\<rparr>]"
    by (cases io0)
       (auto simp: reassessPlan_def call_oracle_def Let_def split: prod.splits sum.splits)
  have e: "list_all (\<lambda>s. sublist s (reassess_prompt steps c)) steps"
    by (simp add: list_all_iff step_in_reassess_prompt)
  from a b d e show ?thesis
    by (simp add: step_in_step_query step_in_recovery_prompt)
qed

text \<open>
  Claim C1 as the specification words it fails on a step that carries a password. The
  Oracle receives the prompt of the step as given, not the prompt of the redacted step,
  and the executor receives the Oracle's command with the placeholder still in it, not
  the command that \<open>substitute\<close> restores.
\<close>

theorem loop_sends_secret_counterexample:
  "snd (snd (executeStepsWithResilience env_leak [secret_step] default_options 0)) =
     [OracleCall (step_query env_leak secret_step
                    (ctx (init_state [secret_step] default_options (0::nat))))
        \<lparr>q_temperature = 1 / 2, q_context = None\<rparr>,
      ExecCall \<lparr>command = Some placeholder_command, ac_commandReasoning = None,
                 ac_requiresApproval = None\<rparr> step_exec_opts] \<and>
   step_query env_leak secret_step
       (ctx (init_state [secret_step] default_options (0::nat)))
     \<noteq> step_query env_leak (fst (redact secret_step))
         (ctx (init_state [secret_step] default_options (0::nat))) \<and>
   placeholder_command
     \<noteq> fst (substitute placeholder_command (snd (redact secret_step))) \<and>
   secret_step = ''Connect with password: SuperSecret123!'' \<and>
   fst (redact secret_step) = ''Connect with password: {{PASSWORD_1}}'' \<and>
   placeholder_command = ''echo {{PASSWORD_1}}'' \<and>
   fst (substitute placeholder_command (snd (redact secret_step))) = ''echo SuperSecret123!''"
proof -
  have r: "secret_step = ''Connect with password: SuperSecret123!''"
    by (simp add: secret_step_def)
  have s: "fst (redact secret_step) = ''Connect with password: {{PASSWORD_1}}''"
    by (simp add: secret_step_def redact_documented_example)
  have p: "placeholder_command = ''echo {{PASSWORD_1}}''"
    by (simp add: placeholder_command_def)
  have u: "fst (substitute placeholder_command (snd (redact secret_step))) = ''echo SuperSecret123!''"
    unfolding secret_step_def placeholder_command_def redact_documented_example
    by (simp add: vault_eval)
  have t: "snd (snd (executeStepsWithResilience env_leak [secret_step] default_options 0)) =
     [OracleCall (step_query env_leak secret_step
                    (ctx (init_state [secret_step] default_options (0::nat))))
        \<lparr>q_temperature = 1 / 2, q_context = None\<rparr>,
      ExecCall \<lparr>command = Some placeholder_command, ac_commandReasoning = None,
                 ac_requiresApproval = None\<rparr> step_exec_opts]"
    by (simp add: run_eval env_leak_def)
  have q: "step_query env_leak secret_step
       (ctx (init_state [secret_step] default_options (0::nat)))
     \<noteq> step_query env_leak (fst (redact secret_step))
         (ctx (init_state [secret_step] default_options (0::nat)))"
    unfolding s unfolding r by (simp add: step_query_def init_state_def nl_def)
  have c: "placeholder_command
     \<noteq> fst (substitute placeholder_command (snd (redact secret_step)))"
    unfolding u unfolding p by simp
  from t q c r s p u show ?thesis by blast
qed

end
